theory Spec2Isabelle
  imports Complex_Main
begin

section \<open>Number model\<close>

text \<open>
  The program computes with JavaScript numbers. The embedding reads every finite number as
  a \<^typ>\<open>real\<close> and every arithmetic operator as the exact one, so rounding and overflow
  are outside this reading. An operation that has no finite value even in exact arithmetic
  (a division by zero, a read past the end of the solver's input arrays, which yields
  \<^verbatim>\<open>undefined\<close>) is not given a value: the functions that can meet one return
  \<^typ>\<open>'a option\<close>, and \<^term>\<open>None\<close> stands for it. A result \<open>Some x\<close> therefore says that
  no such operation was met, not that the doubles of the program stay finite. Where that
  is the question, in the linear solver, the numbers are read again with overflow, the
  infinities and NaN.

  Arrays are lists. The properties below are stated for the sizes the program works with: a
  robot as its constructor builds it, one angle per joint, a target of three coordinates.
\<close>

definition js_div :: "real \<Rightarrow> real \<Rightarrow> real option" where
  \<comment> \<open>\<^verbatim>\<open>x / y\<close>: Infinity or NaN when the divisor is zero.\<close>
  "js_div x y = (if y = 0 then None else Some (x / y))"

section \<open>Math utilities\<close>

type_synonym mat4 = "real list"
type_synonym vec3 = "real list"

definition RAD :: real where
  "RAD = pi / 180"

definition dhTransform :: "real \<Rightarrow> real \<Rightarrow> real \<Rightarrow> real \<Rightarrow> mat4" where
  "dhTransform theta d a alpha =
     (let ct = cos theta; st = sin theta;
          ca = cos alpha; sa = sin alpha
      in [ct, - st * ca, st * sa, a * ct,
          st, ct * ca, - ct * sa, a * st,
          0, sa, ca, d,
          0, 0, 0, 1])"

text \<open>
  \<^verbatim>\<open>mat4Mul\<close>: three nested loops; the innermost accumulates \<open>s\<close> from 0 over
  \<open>k = 0..3\<close>, the middle one stores \<open>s\<close> at \<open>R[r * 4 + c]\<close>. The fresh
  \<^verbatim>\<open>new Array(16)\<close> is a list of 16 cells, each of them overwritten.
\<close>

definition mat4Mul :: "mat4 \<Rightarrow> mat4 \<Rightarrow> mat4" where
  "mat4Mul A B =
     foldl (\<lambda>R r.
        foldl (\<lambda>R c.
           R[r * 4 + c := foldl (\<lambda>s k. s + A ! (r * 4 + k) * B ! (k * 4 + c)) 0 [0..<4]])
          R [0..<4])
       (replicate 16 0) [0..<4]"

definition mat4Identity :: mat4 where
  "mat4Identity = [1,0,0,0, 0,1,0,0, 0,0,1,0, 0,0,0,1]"

definition mat4Pos :: "mat4 \<Rightarrow> vec3" where
  "mat4Pos M = [M ! 3, M ! 7, M ! 11]"

definition mat4AxisZ :: "mat4 \<Rightarrow> vec3" where
  "mat4AxisZ M = [M ! 2, M ! 6, M ! 10]"

definition v3Sub :: "vec3 \<Rightarrow> vec3 \<Rightarrow> vec3" where
  "v3Sub a b = [a ! 0 - b ! 0, a ! 1 - b ! 1, a ! 2 - b ! 2]"

definition v3Cross :: "vec3 \<Rightarrow> vec3 \<Rightarrow> vec3" where
  "v3Cross a b =
     [a ! 1 * b ! 2 - a ! 2 * b ! 1, a ! 2 * b ! 0 - a ! 0 * b ! 2, a ! 0 * b ! 1 - a ! 1 * b ! 0]"

definition v3Len :: "vec3 \<Rightarrow> real" where
  "v3Len v = sqrt (v ! 0 * v ! 0 + v ! 1 * v ! 1 + v ! 2 * v ! 2)"

text \<open>Entry \<open>(r, c)\<close> of a row-major 4x4 matrix, for stating the layout claims.\<close>

definition mat4At :: "mat4 \<Rightarrow> nat \<Rightarrow> nat \<Rightarrow> real" where
  "mat4At M r c = M ! (r * 4 + c)"

section \<open>Robot model\<close>

record preset =
  preset_name :: string
  preset_dh :: "(real \<times> real \<times> real) list"  \<comment> \<open>rows \<open>[d, a, alpha]\<close>; theta is the variable\<close>
  preset_limits :: "(real \<times> real) list"  \<comment> \<open>pairs \<open>[min, max]\<close> in degrees\<close>

definition PRESETS :: "(string \<times> preset) list" where
  "PRESETS =
    [(''6dof'', \<lparr>preset_name = ''6-DOF Industrial'',
        preset_dh = [(0.40, 0.00, pi / 2), (0.00, 0.80, 0), (0.00, 0.55, 0),
                     (0.00, 0.00, pi / 2), (0.38, 0.00, - pi / 2), (0.18, 0.00, 0)],
        preset_limits = [(-180, 180), (-135, 135), (-150, 150),
                         (-180, 180), (-120, 120), (-180, 180)]\<rparr>),
     (''ur5'', \<lparr>preset_name = ''UR5-like'',
        preset_dh = [(0.089, 0.00, pi / 2), (0.00, -0.425, 0), (0.00, -0.392, 0),
                     (0.109, 0.00, pi / 2), (0.095, 0.00, - pi / 2), (0.082, 0.00, 0)],
        preset_limits = [(-360, 360), (-360, 360), (-360, 360),
                         (-360, 360), (-360, 360), (-360, 360)]\<rparr>),
     (''scara'', \<lparr>preset_name = ''4-DOF SCARA'',
        preset_dh = [(0.35, 0.00, 0), (0.00, 0.70, 0), (0.00, 0.50, pi), (0.20, 0.00, 0)],
        preset_limits = [(-135, 135), (-135, 135), (-180, 180), (-180, 180)]\<rparr>),
     (''3link'', \<lparr>preset_name = ''3-Link Planar'',
        preset_dh = [(0.00, 0.80, 0), (0.00, 0.60, 0), (0.00, 0.40, 0)],
        preset_limits = [(-180, 180), (-150, 150), (-150, 150)]\<rparr>)]"

record robot =
  name :: string
  dh :: "(real \<times> real \<times> real) list"
  nJoints :: nat
  limits :: "(real \<times> real) list"
  angles :: "real list"

datatype error = TypeError

text \<open>
  The constructor. \<^verbatim>\<open>PRESETS[presetKey]\<close> is \<^verbatim>\<open>undefined\<close> for a key that is not one
  of the table's, and reading \<^verbatim>\<open>p.name\<close> of it raises a TypeError. (A key that names a
  member of \<^verbatim>\<open>Object.prototype\<close> finds that member, which has no \<^verbatim>\<open>dh\<close>, and
  \<^verbatim>\<open>p.dh.length\<close> raises the same TypeError two lines later.)
\<close>

definition Robot :: "string \<Rightarrow> error + robot" where
  "Robot presetKey =
     (case map_of PRESETS presetKey of
        None \<Rightarrow> Inl TypeError
      | Some p \<Rightarrow>
          Inr \<lparr>name = preset_name p,
               dh = preset_dh p,
               nJoints = length (preset_dh p),
               limits = map (\<lambda>l. (fst l * RAD, snd l * RAD)) (preset_limits p),
               angles = replicate (length (preset_dh p)) 0\<rparr>)"

text \<open>
  What the constructor establishes: the joint count is the number of DH rows, and there is
  one limit pair and one current angle per joint.
\<close>

definition wf_robot :: "robot \<Rightarrow> bool" where
  "wf_robot r \<longleftrightarrow>
     nJoints r = length (dh r) \<and> length (limits r) = nJoints r \<and> length (angles r) = nJoints r"

text \<open>The 3-link planar arm, used as the concrete model in the examples below.\<close>

definition planar3 :: robot where
  "planar3 = projr (Robot ''3link'')"

text \<open>
  \<^verbatim>\<open>clampAngles\<close>: \<open>out\<close> is a fresh zero-filled array as long as \<open>angles\<close>; the loop runs
  over the joints. A store past the end of a typed array is dropped, which is what
  \<^term>\<open>list_update\<close> does.
\<close>

function clamp_loop :: "robot \<Rightarrow> real list \<Rightarrow> nat \<Rightarrow> real list \<Rightarrow> real list" where
  "clamp_loop r as i out =
     (if i < nJoints r
      then clamp_loop r as (i + 1)
             (out[i := max (fst (limits r ! i)) (min (snd (limits r ! i)) (as ! i))])
      else out)"
  by pat_completeness auto
termination
  by (relation "measure (\<lambda>(r, as, i, out). nJoints r - i)") auto

declare clamp_loop.simps [simp del]

definition clampAngles :: "robot \<Rightarrow> real list \<Rightarrow> real list" where
  "clampAngles r as = clamp_loop r as 0 (replicate (length as) 0)"

text \<open>
  \<^verbatim>\<open>fk\<close>: the list of transforms starts with the identity; iteration \<open>i\<close> pushes
  \<open>transforms[i] * T\<close>.
\<close>

function fk_loop :: "robot \<Rightarrow> real list \<Rightarrow> nat \<Rightarrow> mat4 list \<Rightarrow> mat4 list" where
  "fk_loop r as i transforms =
     (if i < nJoints r
      then (case dh r ! i of (d, a, alpha) \<Rightarrow>
              let T = dhTransform (as ! i) d a alpha
              in fk_loop r as (i + 1) (transforms @ [mat4Mul (transforms ! i) T]))
      else transforms)"
  by pat_completeness auto
termination
  by (relation "measure (\<lambda>(r, as, i, ts). nJoints r - i)") auto

declare fk_loop.simps [simp del]

definition fk :: "robot \<Rightarrow> real list \<Rightarrow> mat4 list" where
  "fk r as = fk_loop r as 0 [mat4Identity]"

text \<open>The DH transform of joint \<open>i\<close> at the angles \<open>as\<close>, as the loop of \<^verbatim>\<open>fk\<close> builds it.\<close>

definition dh_row_transform :: "robot \<Rightarrow> real list \<Rightarrow> nat \<Rightarrow> mat4" where
  "dh_row_transform r as i = (case dh r ! i of (d, a, alpha) \<Rightarrow> dhTransform (as ! i) d a alpha)"

section \<open>Jacobian\<close>

record jacobian_result =
  Jp :: "real list"  \<comment> \<open>position rows, \<open>3 * n\<close> entries, row-major\<close>
  Jr :: "real list"  \<comment> \<open>orientation rows\<close>
  Jn :: nat          \<comment> \<open>the field \<^verbatim>\<open>n\<close>\<close>

function jacobian_loop ::
  "mat4 list \<Rightarrow> vec3 \<Rightarrow> nat \<Rightarrow> nat \<Rightarrow> real list \<Rightarrow> real list \<Rightarrow> real list \<times> real list" where
  "jacobian_loop T pe n i P R =
     (if i < n
      then (let z = mat4AxisZ (T ! i);
                p = mat4Pos (T ! i);
                d = v3Sub pe p;
                cp = v3Cross z d
            in jacobian_loop T pe n (i + 1)
                 (P[0 * n + i := cp ! 0, 1 * n + i := cp ! 1, 2 * n + i := cp ! 2])
                 (R[0 * n + i := z ! 0, 1 * n + i := z ! 1, 2 * n + i := z ! 2]))
      else (P, R))"
  by pat_completeness auto
termination
  by (relation "measure (\<lambda>(T, pe, n, i, P, R). n - i)") auto

declare jacobian_loop.simps [simp del]

definition jacobian :: "robot \<Rightarrow> real list \<Rightarrow> jacobian_result" where
  "jacobian r as =
     (let T = fk r as;
          pe = mat4Pos (T ! nJoints r);
          n = nJoints r;
          (P, R) = jacobian_loop T pe n 0 (replicate (3 * n) 0) (replicate (3 * n) 0)
      in \<lparr>Jp = P, Jr = R, Jn = n\<rparr>)"

text \<open>Column \<open>i\<close> of a row-major \<open>3 \<times> n\<close> block.\<close>

definition column3 :: "real list \<Rightarrow> nat \<Rightarrow> nat \<Rightarrow> vec3" where
  "column3 J n i = [J ! (0 * n + i), J ! (1 * n + i), J ! (2 * n + i)]"

section \<open>Linear solver\<close>

text \<open>
  \<^verbatim>\<open>solveLinear\<close> works on \<open>aug\<close>, a list of \<open>n\<close> rows of \<open>n + 1\<close> numbers. Row \<open>i\<close> is filled
  from \<open>A[i * n + j]\<close> and \<open>b[i]\<close>; a read past the end of \<open>A\<close> or \<open>b\<close> would store NaN.
\<close>

type_synonym augmented = "real list list"

definition build_aug :: "real list \<Rightarrow> real list \<Rightarrow> nat \<Rightarrow> augmented option" where
  "build_aug A b n =
     (if n * n \<le> length A \<and> n \<le> length b
      then Some (map (\<lambda>i. map (\<lambda>j. A ! (i * n + j)) [0..<n] @ [b ! i]) [0..<n])
      else None)"

definition threshold :: real where
  \<comment> \<open>the literal \<^verbatim>\<open>1e-12\<close>, that is the double nearest to \<open>10\<^sup>-\<^sup>1\<^sup>2\<close>\<close>
  "threshold = 4951760157141521 / 2 ^ 92"

text \<open>The search for the pivot row: \<open>r\<close> runs from \<open>col + 1\<close>, \<open>mx\<close> and \<open>mv\<close> are the loop's variables.\<close>

function pivot_search :: "augmented \<Rightarrow> nat \<Rightarrow> nat \<Rightarrow> nat \<Rightarrow> nat \<Rightarrow> real \<Rightarrow> nat" where
  "pivot_search aug n col r mx mv =
     (if r < n
      then (let v = \<bar>aug ! r ! col\<bar>
            in if v > mv then pivot_search aug n col (r + 1) r v
               else pivot_search aug n col (r + 1) mx mv)
      else mx)"
  by pat_completeness auto
termination
  by (relation "measure (\<lambda>(aug, n, col, r, mx, mv). n - r)") auto

declare pivot_search.simps [simp del]

definition pivot_row :: "augmented \<Rightarrow> nat \<Rightarrow> nat \<Rightarrow> nat" where
  "pivot_row aug n col = pivot_search aug n col (col + 1) col \<bar>aug ! col ! col\<bar>"

definition swap_rows :: "augmented \<Rightarrow> nat \<Rightarrow> nat \<Rightarrow> augmented" where
  \<comment> \<open>\<^verbatim>\<open>[aug[col], aug[mx]] = [aug[mx], aug[col]]\<close>\<close>
  "swap_rows aug col mx = aug[col := aug ! mx, mx := aug ! col]"

text \<open>\<^verbatim>\<open>for (j = col; j <= n; j++) aug[r][j] -= f * aug[col][j]\<close>, on the two rows.\<close>

function elim_entries :: "real list \<Rightarrow> real list \<Rightarrow> real \<Rightarrow> nat \<Rightarrow> nat \<Rightarrow> real list" where
  "elim_entries row_r row_col f n j =
     (if j \<le> n
      then elim_entries (row_r[j := row_r ! j - f * row_col ! j]) row_col f n (j + 1)
      else row_r)"
  by pat_completeness auto
termination
  by (relation "measure (\<lambda>(row_r, row_col, f, n, j). n + 1 - j)") auto

declare elim_entries.simps [simp del]

function elim_rows :: "augmented \<Rightarrow> nat \<Rightarrow> nat \<Rightarrow> real \<Rightarrow> nat \<Rightarrow> augmented option" where
  "elim_rows aug n col p r =
     (if r < n
      then (case js_div (aug ! r ! col) p of
              None \<Rightarrow> None
            | Some f \<Rightarrow> elim_rows (aug[r := elim_entries (aug ! r) (aug ! col) f n col]) n col p (r + 1))
      else Some aug)"
  by pat_completeness auto
termination
  by (relation "measure (\<lambda>(aug, n, col, p, r). n - r)") auto

declare elim_rows.simps [simp del]

text \<open>The body of the loop over the columns; \<^verbatim>\<open>continue\<close> leaves the swapped matrix as it is.\<close>

definition elim_col :: "augmented \<Rightarrow> nat \<Rightarrow> nat \<Rightarrow> augmented option" where
  "elim_col aug n col =
     (let mx = pivot_row aug n col;
          aug1 = swap_rows aug col mx;
          p = aug1 ! col ! col
      in if \<bar>p\<bar> < threshold then Some aug1
         else elim_rows aug1 n col p (col + 1))"

function elim_cols :: "augmented \<Rightarrow> nat \<Rightarrow> nat \<Rightarrow> augmented option" where
  "elim_cols aug n col =
     (if col < n
      then (case elim_col aug n col of
              None \<Rightarrow> None
            | Some aug' \<Rightarrow> elim_cols aug' n (col + 1))
      else Some aug)"
  by pat_completeness auto
termination
  by (relation "measure (\<lambda>(aug, n, col). n - col)") auto

declare elim_cols.simps [simp del]

text \<open>\<^verbatim>\<open>for (j = i + 1; j < n; j++) x[i] -= aug[i][j] * x[j]\<close>.\<close>

function back_inner :: "real list \<Rightarrow> real list \<Rightarrow> nat \<Rightarrow> nat \<Rightarrow> nat \<Rightarrow> real list" where
  "back_inner row x n i j =
     (if j < n
      then back_inner row (x[i := x ! i - row ! j * x ! j]) n i (j + 1)
      else x)"
  by pat_completeness auto
termination
  by (relation "measure (\<lambda>(row, x, n, i, j). n - j)") auto

declare back_inner.simps [simp del]

text \<open>
  Back-substitution, \<^verbatim>\<open>for (i = n - 1; i >= 0; i--)\<close>: the second argument counts the rows
  still to do, so that \<open>Suc i\<close> is the iteration at row \<open>i\<close>.
\<close>

fun back_subst :: "augmented \<Rightarrow> nat \<Rightarrow> nat \<Rightarrow> real list \<Rightarrow> real list option" where
  "back_subst aug n 0 x = Some x"
| "back_subst aug n (Suc i) x =
     (let x1 = x[i := aug ! i ! n];
          x2 = back_inner (aug ! i) x1 n i (i + 1)
      in if \<bar>aug ! i ! i\<bar> > threshold
         then (case js_div (x2 ! i) (aug ! i ! i) of
                 None \<Rightarrow> None
               | Some q \<Rightarrow> back_subst aug n i (x2[i := q]))
         else back_subst aug n i (x2[i := 0]))"

definition solveLinear :: "real list \<Rightarrow> real list \<Rightarrow> nat \<Rightarrow> real list option" where
  "solveLinear A b n =
     (case build_aug A b n of
        None \<Rightarrow> None
      | Some aug \<Rightarrow>
          (case elim_cols aug n 0 of
             None \<Rightarrow> None
           | Some aug' \<Rightarrow> back_subst aug' n n (replicate n 0)))"

text \<open>
  The matrix on entry to column \<open>k\<close> of the elimination, that is after the loop body has
  run for the columns \<open>0, \<dots>, k - 1\<close>.
\<close>

fun elim_state :: "augmented \<Rightarrow> nat \<Rightarrow> nat \<Rightarrow> augmented option" where
  "elim_state aug n 0 = Some aug"
| "elim_state aug n (Suc k) =
     (case elim_state aug n k of None \<Rightarrow> None | Some S \<Rightarrow> elim_col S n k)"

definition dims :: "augmented \<Rightarrow> nat \<Rightarrow> bool" where
  "dims aug n \<longleftrightarrow> length aug = n \<and> (\<forall>row \<in> set aug. length row = n + 1)"

section \<open>Inverse kinematics\<close>

text \<open>
  The options object maps option names to numbers. \<^verbatim>\<open>opts.k || d\<close> is \<open>d\<close> when the
  option is absent (\<^verbatim>\<open>undefined\<close>) or zero, and the supplied number otherwise.
\<close>

type_synonym options = "string \<rightharpoonup> real"

definition js_or :: "real option \<Rightarrow> real \<Rightarrow> real" where
  "js_or v d = (case v of None \<Rightarrow> d | Some x \<Rightarrow> if x = 0 then d else x)"

record ik_result =
  ik_angles :: "real list"  \<comment> \<open>the field \<^verbatim>\<open>angles\<close>\<close>
  converged :: bool
  ik_error :: real          \<comment> \<open>the field \<^verbatim>\<open>error\<close>\<close>
  iterations :: real

text \<open>\<open>M = J J\<^sup>T + \<lambda>\<^sup>2 I\<close>, a flat array of 9 numbers filled by three nested loops.\<close>

definition damped_matrix :: "real list \<Rightarrow> nat \<Rightarrow> real \<Rightarrow> real list" where
  "damped_matrix P n lambda =
     foldl (\<lambda>M r.
        foldl (\<lambda>M c.
           M[r * 3 + c :=
               foldl (\<lambda>s k. s + P ! (r * n + k) * P ! (c * n + k)) 0 [0..<n]
                 + (if r = c then lambda * lambda else 0)])
          M [0..<3])
       (replicate 9 0) [0..<3]"

text \<open>
  \<open>dq = J\<^sup>T v\<close>, added joint by joint to the angles. A store past the end of the typed array
  is dropped.
\<close>

function update_angles :: "real list \<Rightarrow> nat \<Rightarrow> real list \<Rightarrow> nat \<Rightarrow> real list \<Rightarrow> real list" where
  "update_angles P n v i as =
     (if i < n
      then update_angles P n v (i + 1)
             (as[i := as ! i + foldl (\<lambda>dq r. dq + P ! (r * n + i) * v ! r) 0 [0..<3]])
      else as)"
  by pat_completeness auto
termination
  by (relation "measure (\<lambda>(P, n, v, i, as). n - i)") auto

declare update_angles.simps [simp del]

text \<open>
  The part of an iteration after the convergence test: Jacobian, damped normal equations,
  joint update, clamp.
\<close>

definition ik_step :: "robot \<Rightarrow> vec3 \<Rightarrow> real \<Rightarrow> real list \<Rightarrow> real list option" where
  "ik_step r err lambda as =
     (let n = nJoints r;
          P = Jp (jacobian r as);
          M = damped_matrix P n lambda
      in case solveLinear M [err ! 0, err ! 1, err ! 2] 3 of
           None \<Rightarrow> None
         | Some v \<Rightarrow> Some (clampAngles r (update_angles P n v 0 as)))"

function ik_loop ::
  "robot \<Rightarrow> vec3 \<Rightarrow> real \<Rightarrow> real \<Rightarrow> real \<Rightarrow> nat \<Rightarrow> real list \<Rightarrow> ik_result option" where
  "ik_loop r target maxIter tol lambda iter as =
     (if real iter < maxIter
      then (let T = fk r as;
                pe = mat4Pos (T ! nJoints r);
                err = v3Sub target pe;
                dist = v3Len err
            in if dist < tol
               then Some \<lparr>ik_angles = clampAngles r as, converged = True,
                          ik_error = dist, iterations = real iter\<rparr>
               else (case ik_step r err lambda as of
                       None \<Rightarrow> None
                     | Some as' \<Rightarrow> ik_loop r target maxIter tol lambda (iter + 1) as'))
      else (let T = fk r as;
                pe = mat4Pos (T ! nJoints r)
            in Some \<lparr>ik_angles = as, converged = False,
                      ik_error = v3Len (v3Sub target pe), iterations = maxIter\<rparr>))"
  by pat_completeness auto
termination
proof (relation "measure (\<lambda>(r, target, maxIter, tol, lambda, iter, as). nat \<lceil>maxIter\<rceil> - iter)")
  show "wf (measure (\<lambda>(r, target, maxIter, tol, lambda, iter, as). nat \<lceil>maxIter\<rceil> - iter))"
    by simp
next
  fix maxIter :: real and iter :: nat
  assume "real iter < maxIter"
  then have "iter < nat \<lceil>maxIter\<rceil>" by linarith
  then show "\<And>r target tol lambda as x xa xb xc x2.
      ((r, target, maxIter, tol, lambda, iter + 1, x2), (r, target, maxIter, tol, lambda, iter, as))
        \<in> measure (\<lambda>(r, target, maxIter, tol, lambda, iter, as). nat \<lceil>maxIter\<rceil> - iter)"
    by simp
qed

declare ik_loop.simps [simp del]

definition solveIK :: "robot \<Rightarrow> vec3 \<Rightarrow> real list option \<Rightarrow> options \<Rightarrow> ik_result option" where
  "solveIK r target startAngles opts =
     (let maxIter = js_or (opts ''maxIter'') 200;
          tol = js_or (opts ''tol'') 0.001;
          lambda = js_or (opts ''lambda'') 0.5;
          as = (case startAngles of None \<Rightarrow> angles r | Some s \<Rightarrow> s)
      in ik_loop r target maxIter tol lambda 0 as)"

text \<open>Distance from the target to the end-effector that FK gives at the angles \<open>as\<close>.\<close>

definition ee_dist :: "robot \<Rightarrow> vec3 \<Rightarrow> real list \<Rightarrow> real" where
  "ee_dist r target as = v3Len (v3Sub target (mat4Pos (fk r as ! nJoints r)))"

text \<open>The angles after \<open>k\<close> iterations that did not converge.\<close>

fun ik_iterate :: "robot \<Rightarrow> vec3 \<Rightarrow> real \<Rightarrow> nat \<Rightarrow> real list \<Rightarrow> real list option" where
  "ik_iterate r target lambda 0 as = Some as"
| "ik_iterate r target lambda (Suc k) as =
     (case ik_step r (v3Sub target (mat4Pos (fk r as ! nJoints r))) lambda as of
        None \<Rightarrow> None
      | Some as' \<Rightarrow> ik_iterate r target lambda k as')"

text \<open>A vector of joint angles that respects the limits of the model.\<close>

definition within_limits :: "robot \<Rightarrow> real list \<Rightarrow> bool" where
  "within_limits r as \<longleftrightarrow>
     (\<forall>i < nJoints r. fst (limits r ! i) \<le> as ! i \<and> as ! i \<le> snd (limits r ! i))"

section \<open>Linear solver on doubles that overflow\<close>

text \<open>
  Whether the solver's result is a vector of finite numbers is decided by what the exact
  reals leave out: a quotient or a sum too large for a double is \<^verbatim>\<open>Infinity\<close>, and
  \<^verbatim>\<open>0 * Infinity\<close> and \<^verbatim>\<open>Infinity - Infinity\<close> are \<^verbatim>\<open>NaN\<close>. For the solver the numbers
  are therefore read a second time, as finite values together with the two infinities and
  NaN. An operation on finite operands gives the exact result, or an infinity when
  round-to-nearest overflows, which it does from \<open>2\<^sup>1\<^sup>0\<^sup>2\<^sup>4 - 2\<^sup>9\<^sup>7\<^sup>0\<close> on; the other cases
  follow IEEE 754. The rounding of an in-range result to 53 bits and the sign of zero are
  not tracked (the solver never divides by a zero).
\<close>

datatype jsnum = Fin real | PosInf | NegInf | NaN

definition overflow_bound :: real where
  "overflow_bound = 2 ^ 1024 - 2 ^ 970"

definition rnd :: "real \<Rightarrow> jsnum" where
  "rnd x = (if overflow_bound \<le> x then PosInf
            else if x \<le> - overflow_bound then NegInf
            else Fin x)"

fun jneg :: "jsnum \<Rightarrow> jsnum" where
  "jneg (Fin a) = Fin (- a)"
| "jneg PosInf = NegInf"
| "jneg NegInf = PosInf"
| "jneg NaN = NaN"

fun jadd :: "jsnum \<Rightarrow> jsnum \<Rightarrow> jsnum" where
  "jadd NaN y = NaN"
| "jadd x NaN = NaN"
| "jadd (Fin a) (Fin b) = rnd (a + b)"
| "jadd (Fin a) y = y"
| "jadd x (Fin b) = x"
| "jadd x y = (if x = y then x else NaN)"

definition jsub :: "jsnum \<Rightarrow> jsnum \<Rightarrow> jsnum" where
  "jsub x y = jadd x (jneg y)"

fun jmul :: "jsnum \<Rightarrow> jsnum \<Rightarrow> jsnum" where
  "jmul NaN y = NaN"
| "jmul x NaN = NaN"
| "jmul (Fin a) (Fin b) = rnd (a * b)"
| "jmul (Fin a) y = (if a = 0 then NaN else if 0 < a then y else jneg y)"
| "jmul x (Fin b) = (if b = 0 then NaN else if 0 < b then x else jneg x)"
| "jmul x y = (if x = y then PosInf else NegInf)"

fun jdiv :: "jsnum \<Rightarrow> jsnum \<Rightarrow> jsnum" where
  "jdiv NaN y = NaN"
| "jdiv x NaN = NaN"
| "jdiv (Fin a) (Fin b) =
     (if b = 0 then (if a = 0 then NaN else if 0 < a then PosInf else NegInf)
      else rnd (a / b))"
| "jdiv (Fin a) y = Fin 0"
| "jdiv x (Fin b) = (if 0 \<le> b then x else jneg x)"
| "jdiv x y = NaN"

fun jabs :: "jsnum \<Rightarrow> jsnum" where
  "jabs (Fin a) = Fin \<bar>a\<bar>"
| "jabs PosInf = PosInf"
| "jabs NegInf = PosInf"
| "jabs NaN = NaN"

text \<open>The comparison \<^verbatim>\<open>x < y\<close>, false whenever an operand is NaN; \<^verbatim>\<open>x > y\<close> is \<open>jlt y x\<close>.\<close>

fun jlt :: "jsnum \<Rightarrow> jsnum \<Rightarrow> bool" where
  "jlt NaN y = False"
| "jlt x NaN = False"
| "jlt (Fin a) (Fin b) = (a < b)"
| "jlt PosInf y = False"
| "jlt x PosInf = True"
| "jlt x NegInf = False"
| "jlt NegInf y = True"

text \<open>A read of array element \<open>i\<close> stored into a typed array: NaN past the end.\<close>

definition js_get :: "jsnum list \<Rightarrow> nat \<Rightarrow> jsnum" where
  "js_get xs i = (if i < length xs then xs ! i else NaN)"

type_synonym augmented_d = "jsnum list list"

definition build_aug_d :: "jsnum list \<Rightarrow> jsnum list \<Rightarrow> nat \<Rightarrow> augmented_d" where
  "build_aug_d A b n = map (\<lambda>i. map (\<lambda>j. js_get A (i * n + j)) [0..<n] @ [js_get b i]) [0..<n]"

function pivot_search_d :: "augmented_d \<Rightarrow> nat \<Rightarrow> nat \<Rightarrow> nat \<Rightarrow> nat \<Rightarrow> jsnum \<Rightarrow> nat" where
  "pivot_search_d aug n col r mx mv =
     (if r < n
      then (let v = jabs (aug ! r ! col)
            in if jlt mv v then pivot_search_d aug n col (r + 1) r v
               else pivot_search_d aug n col (r + 1) mx mv)
      else mx)"
  by pat_completeness auto
termination
  by (relation "measure (\<lambda>(aug, n, col, r, mx, mv). n - r)") auto

declare pivot_search_d.simps [simp del]

definition pivot_row_d :: "augmented_d \<Rightarrow> nat \<Rightarrow> nat \<Rightarrow> nat" where
  "pivot_row_d aug n col = pivot_search_d aug n col (col + 1) col (jabs (aug ! col ! col))"

definition swap_rows_d :: "augmented_d \<Rightarrow> nat \<Rightarrow> nat \<Rightarrow> augmented_d" where
  "swap_rows_d aug col mx = aug[col := aug ! mx, mx := aug ! col]"

function elim_entries_d :: "jsnum list \<Rightarrow> jsnum list \<Rightarrow> jsnum \<Rightarrow> nat \<Rightarrow> nat \<Rightarrow> jsnum list" where
  "elim_entries_d row_r row_col f n j =
     (if j \<le> n
      then elim_entries_d (row_r[j := jsub (row_r ! j) (jmul f (row_col ! j))]) row_col f n (j + 1)
      else row_r)"
  by pat_completeness auto
termination
  by (relation "measure (\<lambda>(row_r, row_col, f, n, j). n + 1 - j)") auto

declare elim_entries_d.simps [simp del]

function elim_rows_d :: "augmented_d \<Rightarrow> nat \<Rightarrow> nat \<Rightarrow> jsnum \<Rightarrow> nat \<Rightarrow> augmented_d" where
  "elim_rows_d aug n col p r =
     (if r < n
      then (let f = jdiv (aug ! r ! col) p
            in elim_rows_d (aug[r := elim_entries_d (aug ! r) (aug ! col) f n col]) n col p (r + 1))
      else aug)"
  by pat_completeness auto
termination
  by (relation "measure (\<lambda>(aug, n, col, p, r). n - r)") auto

declare elim_rows_d.simps [simp del]

definition elim_col_d :: "augmented_d \<Rightarrow> nat \<Rightarrow> nat \<Rightarrow> augmented_d" where
  "elim_col_d aug n col =
     (let mx = pivot_row_d aug n col;
          aug1 = swap_rows_d aug col mx;
          p = aug1 ! col ! col
      in if jlt (jabs p) (Fin threshold) then aug1
         else elim_rows_d aug1 n col p (col + 1))"

function elim_cols_d :: "augmented_d \<Rightarrow> nat \<Rightarrow> nat \<Rightarrow> augmented_d" where
  "elim_cols_d aug n col =
     (if col < n then elim_cols_d (elim_col_d aug n col) n (col + 1) else aug)"
  by pat_completeness auto
termination
  by (relation "measure (\<lambda>(aug, n, col). n - col)") auto

declare elim_cols_d.simps [simp del]

function back_inner_d :: "jsnum list \<Rightarrow> jsnum list \<Rightarrow> nat \<Rightarrow> nat \<Rightarrow> nat \<Rightarrow> jsnum list" where
  "back_inner_d row x n i j =
     (if j < n
      then back_inner_d row (x[i := jsub (x ! i) (jmul (row ! j) (x ! j))]) n i (j + 1)
      else x)"
  by pat_completeness auto
termination
  by (relation "measure (\<lambda>(row, x, n, i, j). n - j)") auto

declare back_inner_d.simps [simp del]

fun back_subst_d :: "augmented_d \<Rightarrow> nat \<Rightarrow> nat \<Rightarrow> jsnum list \<Rightarrow> jsnum list" where
  "back_subst_d aug n 0 x = x"
| "back_subst_d aug n (Suc i) x =
     (let x1 = x[i := aug ! i ! n];
          x2 = back_inner_d (aug ! i) x1 n i (i + 1)
      in if jlt (Fin threshold) (jabs (aug ! i ! i))
         then back_subst_d aug n i (x2[i := jdiv (x2 ! i) (aug ! i ! i)])
         else back_subst_d aug n i (x2[i := Fin 0]))"

definition solveLinear_d :: "jsnum list \<Rightarrow> jsnum list \<Rightarrow> nat \<Rightarrow> jsnum list" where
  "solveLinear_d A b n =
     back_subst_d (elim_cols_d (build_aug_d A b n) n 0) n n (replicate n (Fin 0))"

text \<open>The matrix on entry to column \<open>k\<close>.\<close>

fun elim_state_d :: "augmented_d \<Rightarrow> nat \<Rightarrow> nat \<Rightarrow> augmented_d" where
  "elim_state_d aug n 0 = aug"
| "elim_state_d aug n (Suc k) = elim_col_d (elim_state_d aug n k) n k"

definition dims_d :: "augmented_d \<Rightarrow> nat \<Rightarrow> bool" where
  "dims_d aug n \<longleftrightarrow> length aug = n \<and> (\<forall>row \<in> set aug. length row = n + 1)"

definition is_fin :: "jsnum \<Rightarrow> bool" where
  "is_fin x \<longleftrightarrow> (case x of Fin a \<Rightarrow> True | _ \<Rightarrow> False)"

text \<open>
  What back-substitution accumulates for row \<open>i\<close> before the division: the right-hand side
  minus the products with the components already computed, in the order of the loop.
\<close>

definition back_row :: "augmented_d \<Rightarrow> jsnum list \<Rightarrow> nat \<Rightarrow> nat \<Rightarrow> jsnum" where
  "back_row F x n i =
     foldl (\<lambda>s j. jsub s (jmul (F ! i ! j) (x ! j))) (F ! i ! n) [i + 1..<n]"

section \<open>Properties\<close>

subsection \<open>The DH transform\<close>

text \<open>
  Claim C2. For all \<open>theta\<close>, \<open>d\<close>, \<open>a\<close>, \<open>alpha\<close> the DH transform is a row-major 4x4
  matrix (16 entries) whose rotation block is
  \<open>[[cos \<theta>, - sin \<theta> cos \<alpha>, sin \<theta> sin \<alpha>], [sin \<theta>, cos \<theta> cos \<alpha>, - cos \<theta> sin \<alpha>],
  [0, sin \<alpha>, cos \<alpha>]]\<close>, whose translation column is \<open>[a cos \<theta>, a sin \<theta>, d]\<close> and whose
  bottom row is \<open>[0, 0, 0, 1]\<close>.
\<close>

theorem dhTransform_layout:
  "(let M = dhTransform theta d a alpha in
      length M = 16
    \<and> [[mat4At M 0 0, mat4At M 0 1, mat4At M 0 2],
       [mat4At M 1 0, mat4At M 1 1, mat4At M 1 2],
       [mat4At M 2 0, mat4At M 2 1, mat4At M 2 2]]
      = [[cos theta, - sin theta * cos alpha, sin theta * sin alpha],
         [sin theta, cos theta * cos alpha, - cos theta * sin alpha],
         [0, sin alpha, cos alpha]]
    \<and> [mat4At M 0 3, mat4At M 1 3, mat4At M 2 3] = [a * cos theta, a * sin theta, d]
    \<and> mat4Pos M = [a * cos theta, a * sin theta, d]
    \<and> [mat4At M 3 0, mat4At M 3 1, mat4At M 3 2, mat4At M 3 3] = [0, 0, 0, 1])"
  by (simp add: dhTransform_def mat4At_def mat4Pos_def Let_def)

subsection \<open>Creating a robot\<close>

lemma map_of_PRESETS_known:
  "map_of PRESETS k \<noteq> None \<longleftrightarrow> k \<in> {''6dof'', ''ur5'', ''scara'', ''3link''}"
  by (simp add: PRESETS_def)

lemma PRESETS_lengths:
  "map_of PRESETS k = Some p \<Longrightarrow> length (preset_limits p) = length (preset_dh p)"
  by (auto simp: PRESETS_def split: if_splits)

lemma Robot_wf: "Robot k = Inr r \<Longrightarrow> wf_robot r"
  by (auto simp: Robot_def wf_robot_def PRESETS_lengths split: option.splits)

lemma planar3_eq:
  "planar3 = \<lparr>name = ''3-Link Planar'',
      dh = [(0, 0.8, 0), (0, 0.6, 0), (0, 0.4, 0)],
      nJoints = 3,
      limits = [(-180 * RAD, 180 * RAD), (-150 * RAD, 150 * RAD), (-150 * RAD, 150 * RAD)],
      angles = [0, 0, 0]\<rparr>"
  by (simp add: planar3_def Robot_def PRESETS_def numeral_3_eq_3)

lemma planar3_wf: "wf_robot planar3"
  by (simp add: planar3_eq wf_robot_def)

text \<open>
  Claim C7. For every preset key, creating a robot returns a (well-formed) robot model when
  the key is one of the four presets, and fails when it is not. The failure is the only
  error of the model; in the program it is the TypeError raised by reading a property of
  \<^verbatim>\<open>undefined\<close>, which the specification names ConfigError.
\<close>

theorem Robot_known_or_error:
  "(presetKey \<in> {''6dof'', ''ur5'', ''scara'', ''3link''} \<longrightarrow>
      (\<exists>r. Robot presetKey = Inr r \<and> wf_robot r))
   \<and> (presetKey \<notin> {''6dof'', ''ur5'', ''scara'', ''3link''} \<longrightarrow> Robot presetKey = Inl TypeError)"
proof (cases "map_of PRESETS presetKey")
  case None
  then show ?thesis
    using map_of_PRESETS_known[of presetKey] by (simp add: Robot_def)
next
  case (Some p)
  then have "\<exists>r. Robot presetKey = Inr r" by (simp add: Robot_def)
  then show ?thesis
    using map_of_PRESETS_known[of presetKey] Some Robot_wf by auto
qed

theorem Robot_known_or_error_witness:
  "(\<exists>r. Robot ''3link'' = Inr r \<and> wf_robot r) \<and> Robot ''hexapod'' = Inl TypeError"
  using Robot_known_or_error[of "''3link''"] Robot_known_or_error[of "''hexapod''"]
  by simp

subsection \<open>Joint-limit clamping\<close>

lemma clamp_loop_length: "length (clamp_loop r as i out) = length out"
proof (induction r as i out rule: clamp_loop.induct)
  case (1 r as i out)
  show ?case
    using 1 by (subst clamp_loop.simps) simp
qed

lemma clamp_loop_nth:
  "k < length out \<Longrightarrow>
   clamp_loop r as i out ! k =
     (if i \<le> k \<and> k < nJoints r
      then max (fst (limits r ! k)) (min (snd (limits r ! k)) (as ! k))
      else out ! k)"
proof (induction r as i out rule: clamp_loop.induct)
  case (1 r as i out)
  show ?case
  proof (cases "i < nJoints r")
    case True
    then show ?thesis
      using 1 by (subst clamp_loop.simps) (auto simp: nth_list_update not_less_eq_eq le_Suc_eq)
  next
    case False
    then show ?thesis by (subst clamp_loop.simps) simp
  qed
qed

lemma clampAngles_length: "length (clampAngles r as) = length as"
  by (simp add: clampAngles_def clamp_loop_length)

lemma clampAngles_nth:
  "k < length as \<Longrightarrow>
   clampAngles r as ! k =
     (if k < nJoints r then max (fst (limits r ! k)) (min (snd (limits r ! k)) (as ! k)) else 0)"
  by (simp add: clampAngles_def clamp_loop_nth)

lemma clampAngles_idem: "clampAngles r (clampAngles r v) = clampAngles r v"
  by (rule nth_equalityI) (auto simp: clampAngles_length clampAngles_nth)

lemma clampAngles_fixed:
  assumes "length v = nJoints r"
    and "\<And>i. i < nJoints r \<Longrightarrow> fst (limits r ! i) \<le> v ! i \<and> v ! i \<le> snd (limits r ! i)"
  shows "clampAngles r v = v"
  using assms by (intro nth_equalityI) (auto simp: clampAngles_length clampAngles_nth)

text \<open>
  Claim C9. Joint-limit clamping is idempotent: clamping a clamped vector changes nothing.
  Clamping keeps the length of the vector and moves component \<open>i\<close> of a vector of the
  model's joint count to \<open>max min\<^sub>i (min max\<^sub>i v\<^sub>i)\<close>.
\<close>

theorem clampAngles_idempotent:
  "clampAngles r (clampAngles r v) = clampAngles r v
   \<and> length (clampAngles r v) = length v
   \<and> (length v = nJoints r \<longrightarrow>
        clampAngles r v =
          map (\<lambda>i. max (fst (limits r ! i)) (min (snd (limits r ! i)) (v ! i))) [0..<nJoints r])"
  by (auto simp: clampAngles_idem clampAngles_length clampAngles_nth intro!: nth_equalityI)

theorem clampAngles_idempotent_witness:
  "length [4, -4, 1 :: real] = nJoints planar3
   \<and> clampAngles planar3 (clampAngles planar3 [4, -4, 1]) = clampAngles planar3 [4, -4, 1]
   \<and> clampAngles planar3 [4, -4, 1] = [pi, - (5 * pi / 6), 1]"
proof -
  have len: "length [4, -4, 1 :: real] = nJoints planar3" by (simp add: planar3_eq)
  have n: "[0..<nJoints planar3] = [0, 1, 2]"
    by (simp add: planar3_eq upt_rec)
  have lim: "limits planar3 = [(- pi, pi), (- (5 * pi / 6), 5 * pi / 6), (- (5 * pi / 6), 5 * pi / 6)]"
    by (simp add: planar3_eq RAD_def)
  have vals: "max (- pi) (min pi 4) = pi" "max (- (5 * pi / 6)) (min (5 * pi / 6) (- 4)) = - (5 * pi / 6)"
    "max (- (5 * pi / 6)) (min (5 * pi / 6) 1) = 1"
    using pi_less_4 pi_ge_two by (simp_all add: min_def max_def)
  have idem: "clampAngles planar3 (clampAngles planar3 [4, -4, 1]) = clampAngles planar3 [4, -4, 1]"
    using clampAngles_idempotent[of planar3 "[4, -4, 1]"] by blast
  have "clampAngles planar3 [4, -4, 1] =
      map (\<lambda>i. max (fst (limits planar3 ! i)) (min (snd (limits planar3 ! i)) ([4, -4, 1] ! i)))
        [0..<nJoints planar3]"
    using clampAngles_idempotent[of planar3 "[4, -4, 1]"] len by blast
  also have "\<dots> = [pi, - (5 * pi / 6), 1]"
    by (simp add: n lim vals)
  finally show ?thesis
    using len idem by blast
qed

subsection \<open>Forward kinematics\<close>

lemma fk_loop_unfold:
  "fk_loop r as i ts =
     (if i < nJoints r
      then fk_loop r as (Suc i) (ts @ [mat4Mul (ts ! i) (dh_row_transform r as i)])
      else ts)"
  by (subst fk_loop.simps) (simp add: dh_row_transform_def Let_def split: prod.splits)

lemma fk_loop_length: "length (fk_loop r as i ts) = length ts + (nJoints r - i)"
proof (induction r as i ts rule: fk_loop.induct)
  case (1 r as i ts)
  show ?case
  proof (cases "i < nJoints r")
    case True
    obtain d a alpha where row: "dh r ! i = (d, a, alpha)" by (cases "dh r ! i") auto
    from 1[OF True row[symmetric] refl refl] True show ?thesis
      by (subst fk_loop_unfold) (simp add: dh_row_transform_def row)
  next
    case False
    then show ?thesis by (subst fk_loop_unfold) simp
  qed
qed

lemma fk_loop_prefix: "k < length ts \<Longrightarrow> fk_loop r as i ts ! k = ts ! k"
proof (induction r as i ts rule: fk_loop.induct)
  case (1 r as i ts)
  show ?case
  proof (cases "i < nJoints r")
    case True
    obtain d a alpha where row: "dh r ! i = (d, a, alpha)" by (cases "dh r ! i") auto
    from 1(1)[OF True row[symmetric] refl refl] 1(2) True show ?thesis
      by (subst fk_loop_unfold) (simp add: dh_row_transform_def row nth_append)
  next
    case False
    then show ?thesis by (subst fk_loop_unfold) simp
  qed
qed

lemma fk_loop_step:
  "length ts = Suc i \<Longrightarrow> i < k \<Longrightarrow> k \<le> nJoints r \<Longrightarrow>
   fk_loop r as i ts ! k = mat4Mul (fk_loop r as i ts ! (k - 1)) (dh_row_transform r as (k - 1))"
proof (induction r as i ts rule: fk_loop.induct)
  case (1 r as i ts)
  from 1(3,4) have lt: "i < nJoints r" by simp
  obtain d a alpha where row: "dh r ! i = (d, a, alpha)" by (cases "dh r ! i") auto
  let ?ts = "ts @ [mat4Mul (ts ! i) (dh_row_transform r as i)]"
  have unf: "fk_loop r as i ts = fk_loop r as (Suc i) ?ts"
    using lt by (subst fk_loop_unfold) simp
  show ?case
  proof (cases "k = Suc i")
    case True
    have "fk_loop r as (Suc i) ?ts ! Suc i = ?ts ! Suc i"
      by (rule fk_loop_prefix) (simp add: 1(2))
    moreover have "fk_loop r as (Suc i) ?ts ! i = ?ts ! i"
      by (rule fk_loop_prefix) (simp add: 1(2))
    ultimately show ?thesis
      using True 1(2) by (simp add: unf nth_append)
  next
    case False
    with 1(3) have "Suc i < k" by simp
    with 1(1)[OF lt row[symmetric] refl refl] 1(2,4) show ?thesis
      by (simp add: unf dh_row_transform_def row)
  qed
qed

lemma fk_length: "length (fk r as) = nJoints r + 1"
  by (simp add: fk_def fk_loop_length)

lemma fk_nth_0: "fk r as ! 0 = mat4Identity"
  by (simp add: fk_def fk_loop_prefix)

lemma fk_nth_step:
  "0 < k \<Longrightarrow> k \<le> nJoints r \<Longrightarrow>
   fk r as ! k = mat4Mul (fk r as ! (k - 1)) (dh_row_transform r as (k - 1))"
  using fk_loop_step[of "[mat4Identity]" 0 k r as] by (simp add: fk_def)

text \<open>
  Claim C1. For every robot model with \<open>n\<close> joints and every vector of \<open>n\<close> joint angles,
  forward kinematics returns a chain of \<open>n + 1\<close> poses in which pose 0 is the 4x4 identity
  and, for every \<open>i\<close> from 1 to \<open>n\<close>, pose \<open>i\<close> is pose \<open>i - 1\<close> multiplied on the right by the
  DH transform built from \<open>angles[i - 1]\<close> and row \<open>i - 1\<close> of the model's DH table.
\<close>

theorem fk_chain:
  "wf_robot r \<Longrightarrow> length as = nJoints r \<Longrightarrow>
   length (fk r as) = nJoints r + 1
   \<and> fk r as ! 0 = mat4Identity
   \<and> (\<forall>i \<in> {1..nJoints r}.
        fk r as ! i =
          mat4Mul (fk r as ! (i - 1))
            (case dh r ! (i - 1) of (d, a, alpha) \<Rightarrow> dhTransform (as ! (i - 1)) d a alpha))"
  using fk_nth_step[of _ r as]
  by (auto simp: fk_length fk_nth_0 dh_row_transform_def)

theorem fk_chain_witness:
  "wf_robot planar3 \<and> length [0, 0, 0 :: real] = nJoints planar3
   \<and> length (fk planar3 [0, 0, 0]) = 4
   \<and> fk planar3 [0, 0, 0] ! 0 = mat4Identity
   \<and> fk planar3 [0, 0, 0] ! 1 = mat4Mul (fk planar3 [0, 0, 0] ! 0) (dhTransform 0 0 0.8 0)"
proof -
  have len: "length [0, 0, 0 :: real] = nJoints planar3" by (simp add: planar3_eq)
  show ?thesis
    using fk_chain[OF planar3_wf len] planar3_wf by (simp add: planar3_eq)
qed

subsection \<open>Jacobian\<close>

lemma jacobian_loop_length:
  "length (fst (jacobian_loop T pe n i P R)) = length P
   \<and> length (snd (jacobian_loop T pe n i P R)) = length R"
proof (induction T pe n i P R rule: jacobian_loop.induct)
  case (1 T pe n i P R)
  show ?case
  proof (cases "i < n")
    case True
    from 1[OF True refl refl refl refl] True show ?thesis
      by (subst (1 2) jacobian_loop.simps) (simp add: Let_def)
  next
    case False
    then show ?thesis by (subst (1 2) jacobian_loop.simps) simp
  qed
qed

lemma cell_neq: "k < n \<Longrightarrow> i < n \<Longrightarrow> k \<noteq> i \<Longrightarrow> a < 3 \<Longrightarrow> b < 3 \<Longrightarrow> a * n + k \<noteq> b * n + (i::nat)"
proof
  assume h: "k < n" "i < n" "k \<noteq> i" "a < 3" "b < 3" and e: "a * n + k = b * n + i"
  from e have "(a * n + k) mod n = (b * n + i) mod n" by simp
  with h show False by simp
qed

lemma jacobian_loop_nth:
  "length P = 3 * n \<Longrightarrow> length R = 3 * n \<Longrightarrow> k < n \<Longrightarrow> a < 3 \<Longrightarrow>
   fst (jacobian_loop T pe n i P R) ! (a * n + k) =
     (if i \<le> k then v3Cross (mat4AxisZ (T ! k)) (v3Sub pe (mat4Pos (T ! k))) ! a else P ! (a * n + k))
   \<and> snd (jacobian_loop T pe n i P R) ! (a * n + k) =
     (if i \<le> k then mat4AxisZ (T ! k) ! a else R ! (a * n + k))"
proof (induction T pe n i P R rule: jacobian_loop.induct)
  case (1 T pe n i P R)
  show ?case
  proof (cases "i < n")
    case False
    with 1(4) show ?thesis by (subst (1 2) jacobian_loop.simps) simp
  next
    case True
    let ?z = "mat4AxisZ (T ! i)"
    let ?cp = "v3Cross ?z (v3Sub pe (mat4Pos (T ! i)))"
    let ?P = "P[0 * n + i := ?cp ! 0, 1 * n + i := ?cp ! 1, 2 * n + i := ?cp ! 2]"
    let ?R = "R[0 * n + i := ?z ! 0, 1 * n + i := ?z ! 1, 2 * n + i := ?z ! 2]"
    have unf: "jacobian_loop T pe n i P R = jacobian_loop T pe n (Suc i) ?P ?R"
      using True by (subst jacobian_loop.simps) (simp add: Let_def)
    have IH: "fst (jacobian_loop T pe n (Suc i) ?P ?R) ! (a * n + k) =
        (if Suc i \<le> k then v3Cross (mat4AxisZ (T ! k)) (v3Sub pe (mat4Pos (T ! k))) ! a else ?P ! (a * n + k))
      \<and> snd (jacobian_loop T pe n (Suc i) ?P ?R) ! (a * n + k) =
        (if Suc i \<le> k then mat4AxisZ (T ! k) ! a else ?R ! (a * n + k))"
      using 1(1)[OF True refl refl refl refl] 1(2-5) by simp
    have a3: "a = 0 \<or> a = 1 \<or> a = 2" using 1(5) by arith
    have inb: "a * n + k < 3 * n" using 1(4) a3 by auto
    show ?thesis
    proof (cases "k = i")
      case True
      have "?P ! (a * n + i) = ?cp ! a" "?R ! (a * n + i) = ?z ! a"
        using a3 \<open>i < n\<close> 1(2,3) by (auto simp: nth_list_update)
      with True show ?thesis unfolding unf using IH by simp
    next
      case False
      have "?P ! (a * n + k) = P ! (a * n + k)" "?R ! (a * n + k) = R ! (a * n + k)"
        using cell_neq[OF 1(4) \<open>i < n\<close> False 1(5), of 0] cell_neq[OF 1(4) \<open>i < n\<close> False 1(5), of 1]
          cell_neq[OF 1(4) \<open>i < n\<close> False 1(5), of 2]
        by (simp_all add: nth_list_update)
      with False show ?thesis unfolding unf using IH by auto
    qed
  qed
qed

lemma jacobian_fields:
  "Jn (jacobian r as) = nJoints r"
  "Jp (jacobian r as) = fst (jacobian_loop (fk r as) (mat4Pos (fk r as ! nJoints r)) (nJoints r) 0
       (replicate (3 * nJoints r) 0) (replicate (3 * nJoints r) 0))"
  "Jr (jacobian r as) = snd (jacobian_loop (fk r as) (mat4Pos (fk r as ! nJoints r)) (nJoints r) 0
       (replicate (3 * nJoints r) 0) (replicate (3 * nJoints r) 0))"
  by (simp_all add: jacobian_def Let_def split: prod.splits)

lemma jacobian_lengths:
  "length (Jp (jacobian r as)) = 3 * nJoints r" "length (Jr (jacobian r as)) = 3 * nJoints r"
  by (simp_all add: jacobian_fields jacobian_loop_length)

lemma v3Cross_nths: "[v3Cross a b ! 0, v3Cross a b ! 1, v3Cross a b ! 2] = v3Cross a b"
  by (simp add: v3Cross_def)

lemma mat4AxisZ_nths: "[mat4AxisZ M ! 0, mat4AxisZ M ! 1, mat4AxisZ M ! 2] = mat4AxisZ M"
  by (simp add: mat4AxisZ_def)

lemma jacobian_column:
  assumes "i < nJoints r"
  shows "column3 (Jp (jacobian r as)) (nJoints r) i =
           v3Cross (mat4AxisZ (fk r as ! i)) (v3Sub (mat4Pos (fk r as ! nJoints r)) (mat4Pos (fk r as ! i)))"
    and "column3 (Jr (jacobian r as)) (nJoints r) i = mat4AxisZ (fk r as ! i)"
proof -
  let ?n = "nJoints r"
  let ?T = "fk r as"
  let ?pe = "mat4Pos (?T ! ?n)"
  have cell: "a < 3 \<Longrightarrow>
      Jp (jacobian r as) ! (a * ?n + i) = v3Cross (mat4AxisZ (?T ! i)) (v3Sub ?pe (mat4Pos (?T ! i))) ! a
    \<and> Jr (jacobian r as) ! (a * ?n + i) = mat4AxisZ (?T ! i) ! a" for a
    using jacobian_loop_nth[of "replicate (3 * ?n) 0" ?n "replicate (3 * ?n) 0" i a ?T ?pe 0] assms
    by (simp add: jacobian_fields)
  show "column3 (Jp (jacobian r as)) ?n i = v3Cross (mat4AxisZ (?T ! i)) (v3Sub ?pe (mat4Pos (?T ! i)))"
    unfolding column3_def using cell[of 0] cell[of 1] cell[of 2] v3Cross_nths by simp
  show "column3 (Jr (jacobian r as)) ?n i = mat4AxisZ (?T ! i)"
    unfolding column3_def using cell[of 0] cell[of 1] cell[of 2] mat4AxisZ_nths by simp
qed

text \<open>
  Claim C3. For every robot model with \<open>n\<close> joints and every vector of \<open>n\<close> joint angles,
  the Jacobian consists of two row-major \<open>3 \<times> n\<close> blocks such that, for each joint \<open>i\<close>,
  with \<open>z\<^sub>i\<close> the local Z axis of frame \<open>i\<close> of the FK chain, \<open>p\<^sub>i\<close> its origin and \<open>p\<^sub>e\<close>
  the origin of frame \<open>n\<close>: column \<open>i\<close> of the position block is the cross product
  \<open>z\<^sub>i \<times> (p\<^sub>e - p\<^sub>i)\<close> and column \<open>i\<close> of the orientation block is \<open>z\<^sub>i\<close>.
\<close>

theorem jacobian_columns:
  "wf_robot r \<Longrightarrow> length as = nJoints r \<Longrightarrow>
   (let J = jacobian r as; T = fk r as; n = nJoints r; pe = mat4Pos (T ! n)
    in Jn J = n \<and> length (Jp J) = 3 * n \<and> length (Jr J) = 3 * n
       \<and> (\<forall>i < n. column3 (Jp J) n i = v3Cross (mat4AxisZ (T ! i)) (v3Sub pe (mat4Pos (T ! i)))
                  \<and> column3 (Jr J) n i = mat4AxisZ (T ! i)))"
  by (simp add: Let_def jacobian_fields(1) jacobian_lengths jacobian_column)

lemma mat4Mul_eval:
  "mat4Mul [a0,a1,a2,a3,a4,a5,a6,a7,a8,a9,a10,a11,a12,a13,a14,a15]
           [b0,b1,b2,b3,b4,b5,b6,b7,b8,b9,b10,b11,b12,b13,b14,b15] =
    [0 + a0*b0 + a1*b4 + a2*b8 + a3*b12, 0 + a0*b1 + a1*b5 + a2*b9 + a3*b13,
     0 + a0*b2 + a1*b6 + a2*b10 + a3*b14, 0 + a0*b3 + a1*b7 + a2*b11 + a3*b15,
     0 + a4*b0 + a5*b4 + a6*b8 + a7*b12, 0 + a4*b1 + a5*b5 + a6*b9 + a7*b13,
     0 + a4*b2 + a5*b6 + a6*b10 + a7*b14, 0 + a4*b3 + a5*b7 + a6*b11 + a7*b15,
     0 + a8*b0 + a9*b4 + a10*b8 + a11*b12, 0 + a8*b1 + a9*b5 + a10*b9 + a11*b13,
     0 + a8*b2 + a9*b6 + a10*b10 + a11*b14, 0 + a8*b3 + a9*b7 + a10*b11 + a11*b15,
     0 + a12*b0 + a13*b4 + a14*b8 + a15*b12, 0 + a12*b1 + a13*b5 + a14*b9 + a15*b13,
     0 + a12*b2 + a13*b6 + a14*b10 + a15*b14, 0 + a12*b3 + a13*b7 + a14*b11 + a15*b15]"
  by (simp add: mat4Mul_def upt_rec[of 0] upt_rec[of 1] upt_rec[of 2] upt_rec[of 3] numeral_eq_Suc)

lemma fk_planar3_zero:
  "fk planar3 [0, 0, 0] =
     [mat4Identity,
      [1,0,0,0.8, 0,1,0,0, 0,0,1,0, 0,0,0,1],
      [1,0,0,1.4, 0,1,0,0, 0,0,1,0, 0,0,0,1],
      [1,0,0,1.8, 0,1,0,0, 0,0,1,0, 0,0,0,1]]"
  apply (simp add: fk_def planar3_eq)
  apply (subst fk_loop.simps, simp add: dhTransform_def mat4Identity_def mat4Mul_eval)+
  done

theorem jacobian_columns_witness:
  "wf_robot planar3 \<and> length [0, 0, 0 :: real] = nJoints planar3
   \<and> length (Jp (jacobian planar3 [0, 0, 0])) = 9
   \<and> column3 (Jp (jacobian planar3 [0, 0, 0])) 3 0 = [0, 1.8, 0]
   \<and> column3 (Jr (jacobian planar3 [0, 0, 0])) 3 0 = [0, 0, 1]"
proof -
  have len: "length [0, 0, 0 :: real] = nJoints planar3" by (simp add: planar3_eq)
  have n: "nJoints planar3 = 3" by (simp add: planar3_eq)
  have cross: "v3Cross (mat4AxisZ (fk planar3 [0, 0, 0] ! 0))
      (v3Sub (mat4Pos (fk planar3 [0, 0, 0] ! 3)) (mat4Pos (fk planar3 [0, 0, 0] ! 0))) = [0, 1.8, 0]"
    by (simp add: fk_planar3_zero mat4Identity_def mat4AxisZ_def mat4Pos_def v3Sub_def v3Cross_def)
  have z: "mat4AxisZ (fk planar3 [0, 0, 0] ! 0) = [0, 0, 1]"
    by (simp add: fk_planar3_zero mat4Identity_def mat4AxisZ_def)
  show ?thesis
    using jacobian_columns[OF planar3_wf len] planar3_wf len
    by (simp add: Let_def n cross[unfolded z] z)
qed

subsection \<open>Linear solver in exact arithmetic\<close>

text \<open>
  Over the reals the solver never divides by zero: both divisions are guarded by the
  threshold. This is what the IK loop below needs of it.
\<close>

lemma threshold_pos: "0 < threshold"
  by (simp add: threshold_def)

lemma build_aug_dims:
  "length A = n * n \<Longrightarrow> length b = n \<Longrightarrow> \<exists>aug. build_aug A b n = Some aug \<and> dims aug n"
  by (auto simp: build_aug_def dims_def)

lemma pivot_search_inv:
  "col \<le> mx \<Longrightarrow> mx < r \<Longrightarrow> r \<le> n \<Longrightarrow> mv = \<bar>aug ! mx ! col\<bar> \<Longrightarrow>
   (\<forall>q. col \<le> q \<and> q < r \<longrightarrow> \<bar>aug ! q ! col\<bar> \<le> mv) \<Longrightarrow>
   (let m = pivot_search aug n col r mx mv
    in col \<le> m \<and> m < n \<and> (\<forall>q. col \<le> q \<and> q < n \<longrightarrow> \<bar>aug ! q ! col\<bar> \<le> \<bar>aug ! m ! col\<bar>))"
proof (induction aug n col r mx mv rule: pivot_search.induct)
  case (1 aug n col r mx mv)
  show ?case
  proof (cases "r < n")
    case False
    with 1(3-) show ?thesis
      by (subst pivot_search.simps) (simp add: Let_def)
  next
    case True
    show ?thesis
    proof (cases "\<bar>aug ! r ! col\<bar> > mv")
      case gt: True
      have "\<forall>q. col \<le> q \<and> q < r + 1 \<longrightarrow> \<bar>aug ! q ! col\<bar> \<le> \<bar>aug ! r ! col\<bar>"
      proof (intro allI impI)
        fix q assume q: "col \<le> q \<and> q < r + 1"
        show "\<bar>aug ! q ! col\<bar> \<le> \<bar>aug ! r ! col\<bar>"
        proof (cases "q = r")
          case True then show ?thesis by simp
        next
          case False
          with q have "q < r" by simp
          with q 1(7) gt show ?thesis by fastforce
        qed
      qed
      with 1(1)[OF True refl gt] 1(3-5) True gt show ?thesis
        by (subst pivot_search.simps) (simp add: Let_def)
    next
      case le: False
      have "\<forall>q. col \<le> q \<and> q < r + 1 \<longrightarrow> \<bar>aug ! q ! col\<bar> \<le> mv"
      proof (intro allI impI)
        fix q assume q: "col \<le> q \<and> q < r + 1"
        show "\<bar>aug ! q ! col\<bar> \<le> mv"
        proof (cases "q = r")
          case True with le show ?thesis by simp
        next
          case False
          with q have "q < r" by simp
          with q 1(7) show ?thesis by simp
        qed
      qed
      with 1(2)[OF True refl le] 1(3-6) True le show ?thesis
        by (subst pivot_search.simps) (simp add: Let_def)
    qed
  qed
qed

lemma pivot_row_props:
  assumes "col < n"
  shows "col \<le> pivot_row aug n col" "pivot_row aug n col < n"
    "col \<le> q \<Longrightarrow> q < n \<Longrightarrow> \<bar>aug ! q ! col\<bar> \<le> \<bar>aug ! pivot_row aug n col ! col\<bar>"
proof -
  have "\<forall>q. col \<le> q \<and> q < col + 1 \<longrightarrow> \<bar>aug ! q ! col\<bar> \<le> \<bar>aug ! col ! col\<bar>"
    by (auto simp: le_less_Suc_eq)
  from pivot_search_inv[OF le_refl _ _ refl this, of n] assms
  have *: "col \<le> pivot_row aug n col \<and> pivot_row aug n col < n \<and>
    (\<forall>q. col \<le> q \<and> q < n \<longrightarrow> \<bar>aug ! q ! col\<bar> \<le> \<bar>aug ! pivot_row aug n col ! col\<bar>)"
    by (simp add: pivot_row_def Let_def)
  from * show "col \<le> pivot_row aug n col" "pivot_row aug n col < n" by simp_all
  from * show "col \<le> q \<Longrightarrow> q < n \<Longrightarrow> \<bar>aug ! q ! col\<bar> \<le> \<bar>aug ! pivot_row aug n col ! col\<bar>"
    by simp
qed

lemma elim_entries_length: "length (elim_entries row_r row_col f n j) = length row_r"
proof (induction row_r row_col f n j rule: elim_entries.induct)
  case (1 row_r row_col f n j)
  then show ?case by (subst elim_entries.simps) simp
qed

lemma swap_rows_dims: "dims aug n \<Longrightarrow> col < n \<Longrightarrow> mx < n \<Longrightarrow> dims (swap_rows aug col mx) n"
  by (auto simp: dims_def swap_rows_def dest!: set_update_subset_insert[THEN subsetD])

lemma elim_rows_ok:
  "dims aug n \<Longrightarrow> p \<noteq> 0 \<Longrightarrow> col < r \<Longrightarrow>
   \<exists>aug'. elim_rows aug n col p r = Some aug' \<and> dims aug' n \<and> (\<forall>i < r. aug' ! i = aug ! i)"
proof (induction aug n col p r rule: elim_rows.induct)
  case (1 aug n col p r)
  show ?case
  proof (cases "r < n")
    case False
    with 1(2) show ?thesis by (subst elim_rows.simps) simp
  next
    case True
    let ?f = "aug ! r ! col / p"
    let ?aug = "aug[r := elim_entries (aug ! r) (aug ! col) ?f n col]"
    have d: "js_div (aug ! r ! col) p = Some ?f" using 1(3) by (simp add: js_div_def)
    have dims': "dims ?aug n"
      using 1(2) True
      by (auto simp: dims_def elim_entries_length dest!: set_update_subset_insert[THEN subsetD])
    from 1(1)[OF True d dims' 1(3)] 1(4)
    obtain aug' where a: "elim_rows ?aug n col p (r + 1) = Some aug'" "dims aug' n"
      "\<forall>i < r + 1. aug' ! i = ?aug ! i" by auto
    have "elim_rows aug n col p r = Some aug'"
      using True d a(1) by (subst elim_rows.simps) simp
    moreover have "\<forall>i < r. aug' ! i = aug ! i" using a(3) by simp
    ultimately show ?thesis using a(2) by blast
  qed
qed

lemma elim_col_ok:
  assumes "dims S n" "col < n"
  shows "\<exists>S'. elim_col S n col = Some S' \<and> dims S' n
           \<and> (\<forall>i < col. S' ! i = S ! i)
           \<and> S' ! col = swap_rows S col (pivot_row S n col) ! col"
proof -
  let ?mx = "pivot_row S n col"
  let ?S1 = "swap_rows S col ?mx"
  let ?p = "?S1 ! col ! col"
  have mx: "col \<le> ?mx" "?mx < n" using pivot_row_props[OF assms(2)] by simp_all
  have d1: "dims ?S1 n" using swap_rows_dims[OF assms mx(2)] .
  have low: "\<forall>i < col. ?S1 ! i = S ! i"
    using mx by (simp add: swap_rows_def)
  show ?thesis
  proof (cases "\<bar>?p\<bar> < threshold")
    case True
    then have "elim_col S n col = Some ?S1" by (simp add: elim_col_def Let_def)
    with d1 low show ?thesis by simp
  next
    case False
    then have "?p \<noteq> 0" using threshold_pos by auto
    from elim_rows_ok[OF d1 this, of col "col + 1"]
    obtain S' where s: "elim_rows ?S1 n col ?p (col + 1) = Some S'" "dims S' n"
      "\<forall>i < col + 1. S' ! i = ?S1 ! i" by auto
    have "elim_col S n col = Some S'" using False s(1) by (simp add: elim_col_def Let_def)
    with s(2,3) low show ?thesis by simp
  qed
qed

lemma elim_state_ok:
  "dims aug n \<Longrightarrow> k \<le> n \<Longrightarrow> \<exists>S. elim_state aug n k = Some S \<and> dims S n"
proof (induction k)
  case 0
  then show ?case by simp
next
  case (Suc k)
  then obtain S where S: "elim_state aug n k = Some S" "dims S n" by auto
  from elim_col_ok[OF S(2), of k] Suc(3) S(1) show ?case by auto
qed

lemma elim_cols_state:
  "col \<le> n \<Longrightarrow> elim_state aug n col = Some S \<Longrightarrow> elim_cols S n col = elim_state aug n n"
proof (induction S n col rule: elim_cols.induct)
  case (1 S n col)
  show ?case
  proof (cases "col < n")
    case False
    with 1(2,3) show ?thesis by (subst elim_cols.simps) simp
  next
    case True
    show ?thesis
    proof (cases "elim_col S n col")
      case None
      have "elim_state aug n m = None" if "col < m" for m
        using that
      proof (induction m)
        case 0 then show ?case by simp
      next
        case (Suc m)
        show ?case
        proof (cases "col = m")
          case True with None 1(3) show ?thesis by simp
        next
          case False
          with Suc have "elim_state aug n m = None" by simp
          then show ?thesis by simp
        qed
      qed
      with True have "elim_state aug n n = None" by simp
      with None True show ?thesis by (subst elim_cols.simps) simp
    next
      case (Some S')
      have "elim_state aug n (col + 1) = Some S'" using 1(3) Some by simp
      from 1(1)[OF True Some _ this] True
      have "elim_cols S' n (col + 1) = elim_state aug n n" by simp
      with Some True show ?thesis by (subst elim_cols.simps) simp
    qed
  qed
qed

lemma back_inner_props:
  "length (back_inner row x n i j) = length x
   \<and> (\<forall>k. k \<noteq> i \<longrightarrow> back_inner row x n i j ! k = x ! k)"
proof (induction row x n i j rule: back_inner.induct)
  case (1 row x n i j)
  then show ?case by (subst (1 2) back_inner.simps) simp
qed

lemma back_subst_ok:
  "length x = n \<Longrightarrow> k \<le> n \<Longrightarrow>
   \<exists>x'. back_subst aug n k x = Some x' \<and> length x' = n
     \<and> (\<forall>i < k. \<not> \<bar>aug ! i ! i\<bar> > threshold \<longrightarrow> x' ! i = 0)
     \<and> (\<forall>i. k \<le> i \<longrightarrow> x' ! i = x ! i)"
proof (induction k arbitrary: x)
  case 0
  then show ?case by simp
next
  case (Suc i)
  let ?x1 = "x[i := aug ! i ! n]"
  let ?x2 = "back_inner (aug ! i) ?x1 n i (i + 1)"
  have len2: "length ?x2 = n" using Suc(2) by (simp add: back_inner_props)
  have keep2: "\<forall>k. k \<noteq> i \<longrightarrow> ?x2 ! k = x ! k" by (simp add: back_inner_props)
  from Suc(3) have i: "i < n" "i \<le> n" by simp_all
  show ?case
  proof (cases "\<bar>aug ! i ! i\<bar> > threshold")
    case True
    then have nz: "aug ! i ! i \<noteq> 0" using threshold_pos by auto
    let ?x3 = "?x2[i := ?x2 ! i / (aug ! i ! i)]"
    have step: "back_subst aug n (Suc i) x = back_subst aug n i ?x3"
      using True nz by (simp add: Let_def js_div_def)
    from Suc(1)[of ?x3] len2 i
    obtain x' where x': "back_subst aug n i ?x3 = Some x'" "length x' = n"
      "\<forall>j < i. \<not> \<bar>aug ! j ! j\<bar> > threshold \<longrightarrow> x' ! j = 0" "\<forall>j. i \<le> j \<longrightarrow> x' ! j = ?x3 ! j"
      by auto
    have "\<forall>j < Suc i. \<not> \<bar>aug ! j ! j\<bar> > threshold \<longrightarrow> x' ! j = 0"
      using x'(3) True by (auto simp: less_Suc_eq)
    moreover have "\<forall>j. Suc i \<le> j \<longrightarrow> x' ! j = x ! j"
      using x'(4) keep2 by auto
    ultimately show ?thesis using step x'(1,2) by auto
  next
    case False
    let ?x3 = "?x2[i := 0]"
    have step: "back_subst aug n (Suc i) x = back_subst aug n i ?x3"
      using False by (simp add: Let_def)
    from Suc(1)[of ?x3] len2 i
    obtain x' where x': "back_subst aug n i ?x3 = Some x'" "length x' = n"
      "\<forall>j < i. \<not> \<bar>aug ! j ! j\<bar> > threshold \<longrightarrow> x' ! j = 0" "\<forall>j. i \<le> j \<longrightarrow> x' ! j = ?x3 ! j"
      by auto
    have "x' ! i = 0" using x'(4) len2 i by simp
    then have "\<forall>j < Suc i. \<not> \<bar>aug ! j ! j\<bar> > threshold \<longrightarrow> x' ! j = 0"
      using x'(3) by (auto simp: less_Suc_eq)
    moreover have "\<forall>j. Suc i \<le> j \<longrightarrow> x' ! j = x ! j"
      using x'(4) keep2 by auto
    ultimately show ?thesis using step x'(1,2) by auto
  qed
qed

lemma solveLinear_run:
  assumes "build_aug A b n = Some aug" "dims aug n"
  shows "\<exists>F x. elim_state aug n n = Some F \<and> dims F n \<and> solveLinear A b n = Some x \<and> length x = n
          \<and> (\<forall>i < n. \<not> \<bar>F ! i ! i\<bar> > threshold \<longrightarrow> x ! i = 0)"
proof -
  from elim_state_ok[OF assms(2), of n]
  obtain F where F: "elim_state aug n n = Some F" "dims F n" by auto
  have "elim_cols aug n 0 = Some F"
    using elim_cols_state[of 0 n aug aug] F(1) by simp
  then have sl: "solveLinear A b n = back_subst F n n (replicate n 0)"
    by (simp add: solveLinear_def assms(1))
  from back_subst_ok[of "replicate n 0" n n F]
  obtain x where "back_subst F n n (replicate n 0) = Some x" "length x = n"
    "\<forall>i < n. \<not> \<bar>F ! i ! i\<bar> > threshold \<longrightarrow> x ! i = 0" by auto
  with F sl show ?thesis by auto
qed

subsection \<open>Linear solver on doubles that overflow\<close>

lemma jlt_irrefl: "\<not> jlt x x"
  by (cases x) simp_all

lemma jlt_trans: "jlt x y \<Longrightarrow> jlt y z \<Longrightarrow> jlt x z"
  by (cases x; cases y; cases z) simp_all

lemma build_aug_d_dims: "dims_d (build_aug_d A b n) n"
  by (auto simp: build_aug_d_def dims_d_def)

lemma pivot_search_d_inv:
  "col \<le> mx \<Longrightarrow> mx < r \<Longrightarrow> r \<le> n \<Longrightarrow> mv = jabs (aug ! mx ! col) \<Longrightarrow>
   (\<forall>q. col \<le> q \<and> q < r \<longrightarrow> \<not> jlt mv (jabs (aug ! q ! col))) \<Longrightarrow>
   (let m = pivot_search_d aug n col r mx mv
    in col \<le> m \<and> m < n
       \<and> (\<forall>q. col \<le> q \<and> q < n \<longrightarrow> \<not> jlt (jabs (aug ! m ! col)) (jabs (aug ! q ! col))))"
proof (induction aug n col r mx mv rule: pivot_search_d.induct)
  case (1 aug n col r mx mv)
  show ?case
  proof (cases "r < n")
    case False
    with 1(3-) show ?thesis
      by (subst pivot_search_d.simps) (simp add: Let_def)
  next
    case True
    let ?v = "jabs (aug ! r ! col)"
    show ?thesis
    proof (cases "jlt mv ?v")
      case gt: True
      have "\<forall>q. col \<le> q \<and> q < r + 1 \<longrightarrow> \<not> jlt ?v (jabs (aug ! q ! col))"
      proof (intro allI impI)
        fix q assume q: "col \<le> q \<and> q < r + 1"
        show "\<not> jlt ?v (jabs (aug ! q ! col))"
        proof (cases "q = r")
          case True then show ?thesis by (simp add: jlt_irrefl)
        next
          case False
          with q have "q < r" by simp
          with q 1(7) have "\<not> jlt mv (jabs (aug ! q ! col))" by simp
          with gt show ?thesis using jlt_trans by blast
        qed
      qed
      with 1(1)[OF True refl gt] 1(3-5) True gt show ?thesis
        by (subst pivot_search_d.simps) (simp add: Let_def)
    next
      case le: False
      have "\<forall>q. col \<le> q \<and> q < r + 1 \<longrightarrow> \<not> jlt mv (jabs (aug ! q ! col))"
      proof (intro allI impI)
        fix q assume q: "col \<le> q \<and> q < r + 1"
        show "\<not> jlt mv (jabs (aug ! q ! col))"
        proof (cases "q = r")
          case True with le show ?thesis by simp
        next
          case False
          with q have "q < r" by simp
          with q 1(7) show ?thesis by simp
        qed
      qed
      with 1(2)[OF True refl le] 1(3-6) True le show ?thesis
        by (subst pivot_search_d.simps) (simp add: Let_def)
    qed
  qed
qed

lemma pivot_row_d_props:
  assumes "col < n"
  shows "col \<le> pivot_row_d aug n col" "pivot_row_d aug n col < n"
    "col \<le> q \<Longrightarrow> q < n \<Longrightarrow>
       \<not> jlt (jabs (aug ! pivot_row_d aug n col ! col)) (jabs (aug ! q ! col))"
proof -
  have "\<forall>q. col \<le> q \<and> q < col + 1 \<longrightarrow> \<not> jlt (jabs (aug ! col ! col)) (jabs (aug ! q ! col))"
    by (auto simp: le_less_Suc_eq jlt_irrefl)
  from pivot_search_d_inv[OF le_refl _ _ refl this, of n] assms
  have *: "col \<le> pivot_row_d aug n col \<and> pivot_row_d aug n col < n \<and>
    (\<forall>q. col \<le> q \<and> q < n \<longrightarrow>
       \<not> jlt (jabs (aug ! pivot_row_d aug n col ! col)) (jabs (aug ! q ! col)))"
    by (simp add: pivot_row_d_def Let_def)
  from * show "col \<le> pivot_row_d aug n col" "pivot_row_d aug n col < n" by simp_all
  from * show "col \<le> q \<Longrightarrow> q < n \<Longrightarrow>
       \<not> jlt (jabs (aug ! pivot_row_d aug n col ! col)) (jabs (aug ! q ! col))"
    by simp
qed

lemma elim_entries_d_length: "length (elim_entries_d row_r row_col f n j) = length row_r"
proof (induction row_r row_col f n j rule: elim_entries_d.induct)
  case (1 row_r row_col f n j)
  then show ?case by (subst elim_entries_d.simps) simp
qed

lemma swap_rows_d_dims:
  "dims_d aug n \<Longrightarrow> col < n \<Longrightarrow> mx < n \<Longrightarrow> dims_d (swap_rows_d aug col mx) n"
  by (auto simp: dims_d_def swap_rows_d_def dest!: set_update_subset_insert[THEN subsetD])

lemma elim_rows_d_props:
  "dims_d aug n \<Longrightarrow> col < r \<Longrightarrow>
   dims_d (elim_rows_d aug n col p r) n
   \<and> (\<forall>i < r. elim_rows_d aug n col p r ! i = aug ! i)
   \<and> (\<forall>q. r \<le> q \<and> q < n \<longrightarrow>
        elim_rows_d aug n col p r ! q =
          elim_entries_d (aug ! q) (aug ! col) (jdiv (aug ! q ! col) p) n col)"
proof (induction aug n col p r rule: elim_rows_d.induct)
  case (1 aug n col p r)
  show ?case
  proof (cases "r < n")
    case False
    then have "elim_rows_d aug n col p r = aug" by (subst elim_rows_d.simps) simp
    with 1(2) False show ?thesis by auto
  next
    case True
    let ?f = "jdiv (aug ! r ! col) p"
    let ?aug = "aug[r := elim_entries_d (aug ! r) (aug ! col) ?f n col]"
    have len: "length aug = n" using 1(2) by (simp add: dims_d_def)
    have dims': "dims_d ?aug n"
      using 1(2) True
      by (auto simp: dims_d_def elim_entries_d_length dest!: set_update_subset_insert[THEN subsetD])
    have unf: "elim_rows_d aug n col p r = elim_rows_d ?aug n col p (r + 1)"
      using True by (subst elim_rows_d.simps) (simp add: Let_def)
    from 1(1)[OF True refl dims'] 1(3)
    have IH: "dims_d (elim_rows_d ?aug n col p (r + 1)) n"
      "\<forall>i < r + 1. elim_rows_d ?aug n col p (r + 1) ! i = ?aug ! i"
      "\<forall>q. r + 1 \<le> q \<and> q < n \<longrightarrow>
        elim_rows_d ?aug n col p (r + 1) ! q =
          elim_entries_d (?aug ! q) (?aug ! col) (jdiv (?aug ! q ! col) p) n col"
      by simp_all
    have a: "\<forall>i < r. elim_rows_d aug n col p r ! i = aug ! i"
      unfolding unf using IH(2) by simp
    have b: "\<forall>q. r \<le> q \<and> q < n \<longrightarrow>
        elim_rows_d aug n col p r ! q =
          elim_entries_d (aug ! q) (aug ! col) (jdiv (aug ! q ! col) p) n col"
    proof (intro allI impI)
      fix q assume q: "r \<le> q \<and> q < n"
      show "elim_rows_d aug n col p r ! q =
          elim_entries_d (aug ! q) (aug ! col) (jdiv (aug ! q ! col) p) n col"
      proof (cases "q = r")
        case True
        with IH(2) True len \<open>r < n\<close> show ?thesis unfolding unf by simp
      next
        case False
        with q have "r + 1 \<le> q \<and> q < n" by simp
        with IH(3) False 1(3) show ?thesis unfolding unf by simp
      qed
    qed
    from IH(1) a b show ?thesis unfolding unf by simp
  qed
qed

lemma elim_col_d_props:
  assumes "dims_d S n" "col < n"
  shows "dims_d (elim_col_d S n col) n"
    and "\<forall>i < col. elim_col_d S n col ! i = S ! i"
    and "elim_col_d S n col ! col = swap_rows_d S col (pivot_row_d S n col) ! col"
proof -
  let ?mx = "pivot_row_d S n col"
  let ?S1 = "swap_rows_d S col ?mx"
  let ?p = "?S1 ! col ! col"
  have mx: "col \<le> ?mx" "?mx < n" using pivot_row_d_props[OF assms(2)] by simp_all
  have d1: "dims_d ?S1 n" using swap_rows_d_dims[OF assms mx(2)] .
  have low: "\<forall>i < col. ?S1 ! i = S ! i"
    using mx by (simp add: swap_rows_d_def)
  note er = elim_rows_d_props[OF d1, of col "col + 1" ?p]
  show "dims_d (elim_col_d S n col) n"
    using d1 er by (simp add: elim_col_d_def Let_def)
  show "\<forall>i < col. elim_col_d S n col ! i = S ! i"
    using low er by (simp add: elim_col_d_def Let_def)
  show "elim_col_d S n col ! col = ?S1 ! col"
    using er by (simp add: elim_col_d_def Let_def)
qed

lemma elim_state_d_dims: "dims_d aug n \<Longrightarrow> k \<le> n \<Longrightarrow> dims_d (elim_state_d aug n k) n"
  by (induction k) (simp_all add: elim_col_d_props(1))

lemma elim_state_d_rows_fixed:
  "dims_d aug n \<Longrightarrow> k' \<le> n \<Longrightarrow> k \<le> k' \<Longrightarrow> i < k \<Longrightarrow>
   elim_state_d aug n k' ! i = elim_state_d aug n k ! i"
proof (induction k')
  case 0
  then show ?case by simp
next
  case (Suc k')
  show ?case
  proof (cases "k = Suc k'")
    case True
    then show ?thesis by simp
  next
    case False
    with Suc(4) have le: "k \<le> k'" by simp
    have d: "dims_d (elim_state_d aug n k') n" using elim_state_d_dims[OF Suc(2)] Suc(3) by simp
    have "elim_state_d aug n (Suc k') ! i = elim_state_d aug n k' ! i"
      using elim_col_d_props(2)[OF d, of k'] Suc(3,5) le by simp
    with Suc(1)[OF Suc(2) _ le Suc(5)] Suc(3) show ?thesis by simp
  qed
qed

lemma elim_cols_d_state:
  "col \<le> n \<Longrightarrow> elim_cols_d (elim_state_d aug n col) n col = elim_state_d aug n n"
proof (induction "n - col" arbitrary: col)
  case 0
  then show ?case by (subst elim_cols_d.simps) simp
next
  case (Suc d)
  then have lt: "col < n" by simp
  from Suc(1)[of "col + 1"] Suc(2) lt
  have "elim_cols_d (elim_state_d aug n (col + 1)) n (col + 1) = elim_state_d aug n n" by simp
  with lt show ?case by (subst elim_cols_d.simps) simp
qed

lemma back_inner_d_eq:
  "i < j \<Longrightarrow>
   back_inner_d row x n i j =
     x[i := foldl (\<lambda>s k. jsub s (jmul (row ! k) (x ! k))) (x ! i) [j..<n]]"
proof (induction row x n i j rule: back_inner_d.induct)
  case (1 row x n i j)
  show ?case
  proof (cases "j < n")
    case False
    then show ?thesis by (subst back_inner_d.simps) simp
  next
    case True
    let ?x = "x[i := jsub (x ! i) (jmul (row ! j) (x ! j))]"
    have unf: "back_inner_d row x n i j = back_inner_d row ?x n i (j + 1)"
      using True by (subst back_inner_d.simps) simp
    from 1(1)[OF True] 1(2)
    have IH: "back_inner_d row ?x n i (j + 1) =
        ?x[i := foldl (\<lambda>s k. jsub s (jmul (row ! k) (?x ! k))) (?x ! i) [j + 1..<n]]"
      by simp
    have same: "foldl (\<lambda>s k. jsub s (jmul (row ! k) (?x ! k))) a [j + 1..<n]
        = foldl (\<lambda>s k. jsub s (jmul (row ! k) (x ! k))) a [j + 1..<n]" for a
      using 1(2) by (intro foldl_cong) auto
    show ?thesis
    proof (cases "i < length x")
      case False
      then show ?thesis unfolding unf IH by (simp add: list_update_beyond)
    next
      case inb: True
      have "[j..<n] = j # [j + 1..<n]" using True by (simp add: upt_conv_Cons)
      then show ?thesis unfolding unf IH same using inb by simp
    qed
  qed
qed

lemma back_subst_d_props:
  "length x = n \<Longrightarrow> k \<le> n \<Longrightarrow>
   length (back_subst_d F n k x) = n
   \<and> (\<forall>i. k \<le> i \<longrightarrow> back_subst_d F n k x ! i = x ! i)
   \<and> (\<forall>i < k. back_subst_d F n k x ! i =
         (if jlt (Fin threshold) (jabs (F ! i ! i))
          then jdiv (back_row F (back_subst_d F n k x) n i) (F ! i ! i)
          else Fin 0))"
proof (induction k arbitrary: x)
  case 0
  then show ?case by simp
next
  case (Suc i)
  define x1 where "x1 = x[i := F ! i ! n]"
  define s where "s = foldl (\<lambda>s k. jsub s (jmul (F ! i ! k) (x1 ! k))) (x1 ! i) [i + 1..<n]"
  define x2 where "x2 = x1[i := s]"
  define q where "q = (if jlt (Fin threshold) (jabs (F ! i ! i)) then jdiv (x2 ! i) (F ! i ! i) else Fin 0)"
  define x3 where "x3 = x2[i := q]"
  define r where "r = back_subst_d F n i x3"
  from Suc(3) have i: "i < n" "i \<le> n" by simp_all
  have inner: "back_inner_d (F ! i) x1 n i (i + 1) = x2"
    unfolding x2_def s_def by (subst back_inner_d_eq) simp_all
  have step: "back_subst_d F n (Suc i) x = r"
  proof (cases "jlt (Fin threshold) (jabs (F ! i ! i))")
    case True
    then show ?thesis
      unfolding back_subst_d.simps Let_def x1_def[symmetric] inner r_def x3_def q_def
      by (simp only: if_True)
  next
    case False
    then show ?thesis
      unfolding back_subst_d.simps Let_def x1_def[symmetric] inner r_def x3_def q_def
      by (simp only: if_False)
  qed
  have len3: "length x3 = n" using Suc(2) by (simp add: x3_def x2_def x1_def)
  from Suc(1)[OF len3 i(2)]
  have IH: "length r = n" "\<forall>m. i \<le> m \<longrightarrow> r ! m = x3 ! m"
    "\<forall>m < i. r ! m =
         (if jlt (Fin threshold) (jabs (F ! m ! m)) then jdiv (back_row F r n m) (F ! m ! m)
          else Fin 0)"
    unfolding r_def by blast+
  have x3_above: "x3 ! m = x ! m" if "Suc i \<le> m" for m
    using that by (simp add: x3_def x2_def x1_def)
  have keep: "\<forall>m. Suc i \<le> m \<longrightarrow> r ! m = x ! m"
    using IH(2) x3_above by simp
  have x1_above: "x1 ! m = r ! m" if "Suc i \<le> m" for m
    using that keep by (simp add: x1_def)
  have "x3 ! i = q" using Suc(2) i by (simp add: x3_def x2_def x1_def)
  then have ri: "r ! i = q" using IH(2) by simp
  have "x1 ! i = F ! i ! n" using Suc(2) i by (simp add: x1_def)
  moreover have "foldl (\<lambda>s k. jsub s (jmul (F ! i ! k) (x1 ! k))) a [i + 1..<n]
      = foldl (\<lambda>s k. jsub s (jmul (F ! i ! k) (r ! k))) a [i + 1..<n]" for a
    using x1_above by (intro foldl_cong) auto
  ultimately have s: "s = back_row F r n i" by (simp add: s_def back_row_def)
  have "x2 ! i = s" using Suc(2) i by (simp add: x2_def x1_def)
  with s have x2i: "x2 ! i = back_row F r n i" by simp
  have ri': "r ! i =
      (if jlt (Fin threshold) (jabs (F ! i ! i)) then jdiv (back_row F r n i) (F ! i ! i)
       else Fin 0)"
    using ri x2i by (simp add: q_def)
  have low: "\<forall>m < Suc i. r ! m =
         (if jlt (Fin threshold) (jabs (F ! m ! m)) then jdiv (back_row F r n m) (F ! m ! m)
          else Fin 0)"
  proof (intro allI impI)
    fix m assume "m < Suc i"
    then consider "m = i" | "m < i" by linarith
    then show "r ! m =
         (if jlt (Fin threshold) (jabs (F ! m ! m)) then jdiv (back_row F r n m) (F ! m ! m)
          else Fin 0)"
    proof cases
      case 1
      then show ?thesis using ri' by blast
    next
      case 2
      then show ?thesis using IH(3) by blast
    qed
  qed
  show ?case unfolding step
    by (intro conjI) (rule IH(1), rule keep, rule low)
qed

lemma rnd_exact: "- (2 ^ 1000) \<le> x \<Longrightarrow> x \<le> 2 ^ 1000 \<Longrightarrow> rnd x = Fin x"
proof -
  assume a: "- (2 ^ 1000) \<le> x" "x \<le> 2 ^ 1000"
  have "(2::real) ^ 1000 < 2 ^ 1024 - 2 ^ 970" by simp
  with a show ?thesis by (auto simp: rnd_def overflow_bound_def)
qed

lemma rnd_overflow: "rnd (2 ^ 1037) = PosInf"
  by (simp add: rnd_def overflow_bound_def)

text \<open>
  Claim C4, as amended. For every system the solver runs Gaussian elimination with partial
  pivoting and returns a vector of length \<open>n\<close>, as a total function of its input. At every
  column the pivot row lies in the active part of the column and no entry there compares
  greater in magnitude than the pivot. Whenever the pivot's magnitude is below the
  threshold, the loop body ends after the row swap (no elimination for that column) and
  back-substitution assigns 0 to the corresponding component of the solution, without
  dividing by the pivot; otherwise every row below is reduced by its multiple of the pivot
  row. The pivot row is final once its column is done, and every component of the solution
  is 0 or the accumulated right-hand side divided by a diagonal entry above the threshold.
  Nothing is said of the components being finite. The proof uses no property of the
  arithmetic other than that the comparison is irreflexive and transitive, so it does not
  depend on how in-range results are rounded.
\<close>

theorem solveLinear_d_policy:
  "(let aug = build_aug_d A b n; F = elim_state_d aug n n; x = solveLinear_d A b n
    in length x = n
     \<and> (\<forall>col < n.
          let S = elim_state_d aug n col; mx = pivot_row_d S n col;
              S1 = swap_rows_d S col mx; p = S1 ! col ! col
          in col \<le> mx \<and> mx < n
           \<and> (\<forall>q. col \<le> q \<and> q < n \<longrightarrow> \<not> jlt (jabs p) (jabs (S ! q ! col)))
           \<and> (jlt (jabs p) (Fin threshold) \<longrightarrow>
                elim_state_d aug n (col + 1) = S1 \<and> x ! col = Fin 0)
           \<and> (\<not> jlt (jabs p) (Fin threshold) \<longrightarrow>
                (\<forall>q. col < q \<and> q < n \<longrightarrow>
                   elim_state_d aug n (col + 1) ! q =
                     elim_entries_d (S1 ! q) (S1 ! col) (jdiv (S1 ! q ! col) p) n col))
           \<and> F ! col = S1 ! col
           \<and> x ! col = (if jlt (Fin threshold) (jabs (F ! col ! col))
                        then jdiv (back_row F x n col) (F ! col ! col)
                        else Fin 0)))"
proof -
  let ?aug = "build_aug_d A b n"
  let ?F = "elim_state_d ?aug n n"
  let ?x = "solveLinear_d A b n"
  have d0: "dims_d ?aug n" by (rule build_aug_d_dims)
  have x: "?x = back_subst_d ?F n n (replicate n (Fin 0))"
    using elim_cols_d_state[of 0 n ?aug] by (simp add: solveLinear_d_def)
  from back_subst_d_props[of "replicate n (Fin 0)" n n ?F]
  have len: "length ?x = n"
    and comp: "\<forall>i < n. ?x ! i =
         (if jlt (Fin threshold) (jabs (?F ! i ! i)) then jdiv (back_row ?F ?x n i) (?F ! i ! i)
          else Fin 0)"
    unfolding x by simp_all
  have "let S = elim_state_d ?aug n col; mx = pivot_row_d S n col;
              S1 = swap_rows_d S col mx; p = S1 ! col ! col
          in col \<le> mx \<and> mx < n
           \<and> (\<forall>q. col \<le> q \<and> q < n \<longrightarrow> \<not> jlt (jabs p) (jabs (S ! q ! col)))
           \<and> (jlt (jabs p) (Fin threshold) \<longrightarrow>
                elim_state_d ?aug n (col + 1) = S1 \<and> ?x ! col = Fin 0)
           \<and> (\<not> jlt (jabs p) (Fin threshold) \<longrightarrow>
                (\<forall>q. col < q \<and> q < n \<longrightarrow>
                   elim_state_d ?aug n (col + 1) ! q =
                     elim_entries_d (S1 ! q) (S1 ! col) (jdiv (S1 ! q ! col) p) n col))
           \<and> ?F ! col = S1 ! col
           \<and> ?x ! col = (if jlt (Fin threshold) (jabs (?F ! col ! col))
                        then jdiv (back_row ?F ?x n col) (?F ! col ! col)
                        else Fin 0)"
    if col: "col < n" for col
  proof -
    let ?S = "elim_state_d ?aug n col"
    let ?mx = "pivot_row_d ?S n col"
    let ?S1 = "swap_rows_d ?S col ?mx"
    let ?p = "?S1 ! col ! col"
    have dS: "dims_d ?S n" using elim_state_d_dims[OF d0] col by simp
    have lenS: "length ?S = n" using dS by (simp add: dims_d_def)
    have mx: "col \<le> ?mx" "?mx < n" using pivot_row_d_props[OF col] by simp_all
    have d1: "dims_d ?S1 n" using swap_rows_d_dims[OF dS col mx(2)] .
    have p: "?p = ?S ! ?mx ! col"
      using col mx lenS by (simp add: swap_rows_d_def nth_list_update)
    have maxp: "\<forall>q. col \<le> q \<and> q < n \<longrightarrow> \<not> jlt (jabs ?p) (jabs (?S ! q ! col))"
      unfolding p using pivot_row_d_props(3)[OF col] by blast
    have next_state: "elim_state_d ?aug n (col + 1) = elim_col_d ?S n col" by simp
    have Frow: "?F ! col = ?S1 ! col"
      using elim_state_d_rows_fixed[OF d0 le_refl, of "col + 1" col] col
        elim_col_d_props(3)[OF dS col]
      by simp
    have small: "jlt (jabs ?p) (Fin threshold) \<longrightarrow>
        elim_state_d ?aug n (col + 1) = ?S1 \<and> ?x ! col = Fin 0"
    proof
      assume s: "jlt (jabs ?p) (Fin threshold)"
      then have "\<not> jlt (Fin threshold) (jabs ?p)"
        using jlt_trans jlt_irrefl by blast
      then have "?x ! col = Fin 0" using comp col Frow by simp
      moreover have "elim_state_d ?aug n (col + 1) = ?S1"
        using s by (simp add: elim_col_d_def Let_def)
      ultimately show "elim_state_d ?aug n (col + 1) = ?S1 \<and> ?x ! col = Fin 0" by simp
    qed
    have big: "\<not> jlt (jabs ?p) (Fin threshold) \<longrightarrow>
        (\<forall>q. col < q \<and> q < n \<longrightarrow>
           elim_state_d ?aug n (col + 1) ! q =
             elim_entries_d (?S1 ! q) (?S1 ! col) (jdiv (?S1 ! q ! col) ?p) n col)"
    proof
      assume ns: "\<not> jlt (jabs ?p) (Fin threshold)"
      then have "elim_col_d ?S n col = elim_rows_d ?S1 n col ?p (col + 1)"
        by (simp add: elim_col_d_def Let_def)
      with elim_rows_d_props[OF d1, of col "col + 1" ?p]
      show "\<forall>q. col < q \<and> q < n \<longrightarrow>
           elim_state_d ?aug n (col + 1) ! q =
             elim_entries_d (?S1 ! q) (?S1 ! col) (jdiv (?S1 ! q ! col) ?p) n col"
        unfolding next_state by simp
    qed
    have xcol: "?x ! col =
        (if jlt (Fin threshold) (jabs (?F ! col ! col))
         then jdiv (back_row ?F ?x n col) (?F ! col ! col) else Fin 0)"
      using comp col by blast
    show ?thesis
      unfolding Let_def
      by (intro conjI) (rule mx(1), rule mx(2), rule maxp, rule small, rule big, rule Frow, rule xcol)
  qed
  then have percol: "\<forall>col < n.
          let S = elim_state_d ?aug n col; mx = pivot_row_d S n col;
              S1 = swap_rows_d S col mx; p = S1 ! col ! col
          in col \<le> mx \<and> mx < n
           \<and> (\<forall>q. col \<le> q \<and> q < n \<longrightarrow> \<not> jlt (jabs p) (jabs (S ! q ! col)))
           \<and> (jlt (jabs p) (Fin threshold) \<longrightarrow>
                elim_state_d ?aug n (col + 1) = S1 \<and> ?x ! col = Fin 0)
           \<and> (\<not> jlt (jabs p) (Fin threshold) \<longrightarrow>
                (\<forall>q. col < q \<and> q < n \<longrightarrow>
                   elim_state_d ?aug n (col + 1) ! q =
                     elim_entries_d (S1 ! q) (S1 ! col) (jdiv (S1 ! q ! col) p) n col))
           \<and> ?F ! col = S1 ! col
           \<and> ?x ! col = (if jlt (Fin threshold) (jabs (?F ! col ! col))
                        then jdiv (back_row ?F ?x n col) (?F ! col ! col)
                        else Fin 0)"
    by blast
  show ?thesis
    unfolding Let_def
    by (intro conjI) (rule len, rule percol[unfolded Let_def])
qed

lemma wx_aug:
  "build_aug_d [Fin 1, Fin 2, Fin 2, Fin 4] [Fin 3, Fin 6] 2 =
     [[Fin 1, Fin 2, Fin 3], [Fin 2, Fin 4, Fin 6]]"
  by (simp add: build_aug_d_def js_get_def upt_rec)

lemma wx_state1:
  "elim_state_d [[Fin 1, Fin 2, Fin 3], [Fin 2, Fin 4, Fin 6]] 2 (Suc 0) =
     [[Fin 2, Fin 4, Fin 6], [Fin 0, Fin 0, Fin 0]]"
  by (simp add: elim_col_d_def pivot_row_d_def pivot_search_d.simps swap_rows_d_def threshold_def
      elim_rows_d.simps elim_entries_d.simps rnd_exact jsub_def Let_def)

lemma wx_pivot1:
  "pivot_row_d [[Fin 2, Fin 4, Fin 6], [Fin 0, Fin 0, Fin 0]] 2 (Suc 0) = Suc 0"
  by (simp add: pivot_row_d_def pivot_search_d.simps)

theorem solveLinear_d_policy_witness:
  "Suc 0 < 2
   \<and> jlt (jabs (swap_rows_d (elim_state_d (build_aug_d [Fin 1, Fin 2, Fin 2, Fin 4] [Fin 3, Fin 6] 2) 2 (Suc 0))
                  (Suc 0)
                  (pivot_row_d (elim_state_d (build_aug_d [Fin 1, Fin 2, Fin 2, Fin 4] [Fin 3, Fin 6] 2) 2 (Suc 0)) 2 (Suc 0))
                ! Suc 0 ! Suc 0))
          (Fin threshold)
   \<and> length (solveLinear_d [Fin 1, Fin 2, Fin 2, Fin 4] [Fin 3, Fin 6] 2) = 2
   \<and> solveLinear_d [Fin 1, Fin 2, Fin 2, Fin 4] [Fin 3, Fin 6] 2 ! Suc 0 = Fin 0"
proof -
  let ?A = "[Fin 1, Fin 2, Fin 2, Fin 4]"
  let ?b = "[Fin 3, Fin 6]"
  let ?S = "elim_state_d (build_aug_d ?A ?b 2) 2 (Suc 0)"
  note T = solveLinear_d_policy[of ?A ?b 2, unfolded Let_def]
  have c: "Suc 0 < (2::nat)" by simp
  have small: "jlt (jabs (swap_rows_d ?S (Suc 0) (pivot_row_d ?S 2 (Suc 0)) ! Suc 0 ! Suc 0)) (Fin threshold)"
    unfolding wx_aug wx_state1 wx_pivot1 by (simp add: swap_rows_d_def threshold_def)
  have len: "length (solveLinear_d ?A ?b 2) = 2" using T by (rule conjunct1)
  have "solveLinear_d ?A ?b 2 ! Suc 0 = Fin 0"
    using T[THEN conjunct2, rule_format, OF c, THEN conjunct2, THEN conjunct2, THEN conjunct2,
        THEN conjunct1, rule_format, OF small]
    by (rule conjunct2)
  with c small len show ?thesis by blast
qed

lemma cx_aug:
  "build_aug_d [Fin 1, Fin 0, Fin 0, Fin 0, Fin (1 / 2 ^ 37), Fin 0, Fin 0, Fin 0, Fin 0]
     [Fin 1, Fin (2 ^ 1000), Fin 0] 3 =
   [[Fin 1, Fin 0, Fin 0, Fin 1],
    [Fin 0, Fin (1 / 2 ^ 37), Fin 0, Fin (2 ^ 1000)],
    [Fin 0, Fin 0, Fin 0, Fin 0]]"
  by (simp add: build_aug_d_def js_get_def upt_rec)

lemma cx_row_keep:
  "- (2 ^ 1000) \<le> a \<Longrightarrow> a \<le> 2 ^ 1000 \<Longrightarrow> jsub (Fin a) (jmul (Fin 0) (Fin c)) = Fin a"
  by (simp add: jsub_def rnd_exact)

lemma cx_col0:
  "elim_col_d [[Fin 1, Fin 0, Fin 0, Fin 1],
               [Fin 0, Fin (1 / 2 ^ 37), Fin 0, Fin (2 ^ 1000)],
               [Fin 0, Fin 0, Fin 0, Fin 0]] 3 0 =
   [[Fin 1, Fin 0, Fin 0, Fin 1],
    [Fin 0, Fin (1 / 2 ^ 37), Fin 0, Fin (2 ^ 1000)],
    [Fin 0, Fin 0, Fin 0, Fin 0]]"
  by (simp add: elim_col_d_def pivot_row_d_def pivot_search_d.simps swap_rows_d_def threshold_def
      elim_rows_d.simps elim_entries_d.simps rnd_exact jsub_def Let_def)

lemma cx_col1:
  "elim_col_d [[Fin 1, Fin 0, Fin 0, Fin 1],
               [Fin 0, Fin (1 / 2 ^ 37), Fin 0, Fin (2 ^ 1000)],
               [Fin 0, Fin 0, Fin 0, Fin 0]] 3 (Suc 0) =
   [[Fin 1, Fin 0, Fin 0, Fin 1],
    [Fin 0, Fin (1 / 2 ^ 37), Fin 0, Fin (2 ^ 1000)],
    [Fin 0, Fin 0, Fin 0, Fin 0]]"
  by (simp add: elim_col_d_def pivot_row_d_def pivot_search_d.simps swap_rows_d_def threshold_def
      elim_rows_d.simps elim_entries_d.simps rnd_exact jsub_def Let_def)

lemma cx_col2:
  "elim_col_d [[Fin 1, Fin 0, Fin 0, Fin 1],
               [Fin 0, Fin (1 / 2 ^ 37), Fin 0, Fin (2 ^ 1000)],
               [Fin 0, Fin 0, Fin 0, Fin 0]] 3 (Suc (Suc 0)) =
   [[Fin 1, Fin 0, Fin 0, Fin 1],
    [Fin 0, Fin (1 / 2 ^ 37), Fin 0, Fin (2 ^ 1000)],
    [Fin 0, Fin 0, Fin 0, Fin 0]]"
  by (simp add: elim_col_d_def pivot_row_d_def pivot_search_d.simps swap_rows_d_def threshold_def
      Let_def)

lemma cx_state:
  "elim_state_d [[Fin 1, Fin 0, Fin 0, Fin 1],
               [Fin 0, Fin (1 / 2 ^ 37), Fin 0, Fin (2 ^ 1000)],
               [Fin 0, Fin 0, Fin 0, Fin 0]] 3 (Suc (Suc (Suc 0))) =
   [[Fin 1, Fin 0, Fin 0, Fin 1],
    [Fin 0, Fin (1 / 2 ^ 37), Fin 0, Fin (2 ^ 1000)],
    [Fin 0, Fin 0, Fin 0, Fin 0]]"
  by (simp only: elim_state_d.simps cx_col0 cx_col1 cx_col2)

lemma cx_back:
  "back_subst_d [[Fin 1, Fin 0, Fin 0, Fin 1],
               [Fin 0, Fin (1 / 2 ^ 37), Fin 0, Fin (2 ^ 1000)],
               [Fin 0, Fin 0, Fin 0, Fin 0]] 3 (Suc (Suc (Suc 0))) [Fin 0, Fin 0, Fin 0] =
   [NaN, PosInf, Fin 0]"
  by (simp add: Let_def back_inner_d.simps threshold_def jsub_def rnd_def overflow_bound_def)

text \<open>
  Claim C4 as stated promises a finite vector without NaN for every singular system with
  finite coefficients. The system below is singular (its third row is zero) and all its
  entries are doubles. The second pivot \<open>2\<^sup>-\<^sup>3\<^sup>7\<close> is above the threshold, so
  back-substitution divides \<open>2\<^sup>1\<^sup>0\<^sup>0\<^sup>0\<close> by it, which overflows to \<^verbatim>\<open>Infinity\<close>; the first
  component then subtracts \<^verbatim>\<open>0 * Infinity\<close> and is \<^verbatim>\<open>NaN\<close>. Every operation of this run
  is exact in doubles except the overflowing division.
\<close>

theorem solveLinear_finite_counterexample:
  "list_all is_fin [Fin 1, Fin 0, Fin 0, Fin 0, Fin (1 / 2 ^ 37), Fin 0, Fin 0, Fin 0, Fin 0]
   \<and> list_all is_fin [Fin 1, Fin (2 ^ 1000), Fin 0]
   \<and> solveLinear_d [Fin 1, Fin 0, Fin 0, Fin 0, Fin (1 / 2 ^ 37), Fin 0, Fin 0, Fin 0, Fin 0]
        [Fin 1, Fin (2 ^ 1000), Fin 0] 3 = [NaN, PosInf, Fin 0]"
proof -
  let ?A = "[Fin 1, Fin 0, Fin 0, Fin 0, Fin (1 / 2 ^ 37), Fin 0, Fin 0, Fin 0, Fin 0]"
  let ?b = "[Fin 1, Fin (2 ^ 1000), Fin 0]"
  have three: "(3::nat) = Suc (Suc (Suc 0))" by simp
  have "elim_cols_d (build_aug_d ?A ?b 3) 3 0 = elim_state_d (build_aug_d ?A ?b 3) 3 3"
    using elim_cols_d_state[of 0 3 "build_aug_d ?A ?b 3"] by simp
  also have "\<dots> = elim_state_d (build_aug_d ?A ?b 3) 3 (Suc (Suc (Suc 0)))"
    using three by presburger
  also have "\<dots> = build_aug_d ?A ?b 3"
    unfolding cx_aug cx_state ..
  finally have F: "elim_cols_d (build_aug_d ?A ?b 3) 3 0 = build_aug_d ?A ?b 3" .
  have "solveLinear_d ?A ?b 3 =
      back_subst_d (build_aug_d ?A ?b 3) 3 3 (replicate 3 (Fin 0))"
    unfolding solveLinear_d_def F ..
  also have "\<dots> = back_subst_d (build_aug_d ?A ?b 3) 3 (Suc (Suc (Suc 0))) [Fin 0, Fin 0, Fin 0]"
    by (simp add: numeral_3_eq_3)
  also have "\<dots> = [NaN, PosInf, Fin 0]"
    unfolding cx_aug cx_back ..
  finally show ?thesis by (simp add: is_fin_def)
qed

subsection \<open>Inverse kinematics\<close>

lemma foldl_length_preserved:
  "(\<And>M x. length (f M x) = length M) \<Longrightarrow> length (foldl f M xs) = length M"
  by (induction xs arbitrary: M) simp_all

lemma damped_matrix_length: "length (damped_matrix P n lambda) = 9"
  unfolding damped_matrix_def
  by (subst foldl_length_preserved) (simp_all add: foldl_length_preserved)

lemma update_angles_length: "length (update_angles P n v i as) = length as"
proof (induction P n v i as rule: update_angles.induct)
  case (1 P n v i as)
  then show ?case by (subst update_angles.simps) simp
qed

lemma ik_step_ok:
  "\<exists>a. ik_step r err lambda as = Some a \<and> length a = length as \<and> clampAngles r a = a"
proof -
  let ?P = "Jp (jacobian r as)"
  let ?M = "damped_matrix ?P (nJoints r) lambda"
  have "length ?M = 3 * 3" by (simp add: damped_matrix_length)
  moreover have "length [err ! 0, err ! 1, err ! 2] = 3" by simp
  ultimately obtain aug where "build_aug ?M [err ! 0, err ! 1, err ! 2] 3 = Some aug" "dims aug 3"
    using build_aug_dims[of ?M 3 "[err ! 0, err ! 1, err ! 2]"] by auto
  from solveLinear_run[OF this]
  obtain v where "solveLinear ?M [err ! 0, err ! 1, err ! 2] 3 = Some v" by auto
  then show ?thesis
    by (simp add: ik_step_def Let_def clampAngles_length update_angles_length clampAngles_idem)
qed

lemma ik_loop_unfold:
  "ik_loop r target maxIter tol lambda iter as =
     (if real iter < maxIter
      then (if ee_dist r target as < tol
            then Some \<lparr>ik_angles = clampAngles r as, converged = True,
                       ik_error = ee_dist r target as, iterations = real iter\<rparr>
            else (case ik_step r (v3Sub target (mat4Pos (fk r as ! nJoints r))) lambda as of
                    None \<Rightarrow> None
                  | Some as' \<Rightarrow> ik_loop r target maxIter tol lambda (iter + 1) as'))
      else Some \<lparr>ik_angles = as, converged = False,
                 ik_error = ee_dist r target as, iterations = maxIter\<rparr>)"
  by (subst ik_loop.simps) (simp add: Let_def ee_dist_def)

lemma ik_loop_total: "\<exists>res. ik_loop r target maxIter tol lambda iter as = Some res"
proof (induction r target maxIter tol lambda iter as rule: ik_loop.induct)
  case (1 r target maxIter tol lambda iter as)
  let ?err = "v3Sub target (mat4Pos (fk r as ! nJoints r))"
  show ?case
  proof (cases "real iter < maxIter \<and> \<not> ee_dist r target as < tol")
    case False
    then show ?thesis by (subst ik_loop_unfold) auto
  next
    case True
    obtain a where a: "ik_step r ?err lambda as = Some a" using ik_step_ok by blast
    from True have "\<not> v3Len ?err < tol" by (simp add: ee_dist_def)
    from 1[OF _ refl refl refl refl this a] True
    have "\<exists>res. ik_loop r target maxIter tol lambda (iter + 1) a = Some res" by simp
    with True a show ?thesis by (subst ik_loop_unfold) simp
  qed
qed

lemma ik_loop_exhaust:
  "(\<forall>k < j. \<forall>a. ik_iterate r target lambda k as = Some a \<longrightarrow> \<not> ee_dist r target a < tol) \<Longrightarrow>
   maxIter = real (iter + j) \<Longrightarrow>
   \<exists>a. ik_iterate r target lambda j as = Some a
      \<and> ik_loop r target maxIter tol lambda iter as =
          Some \<lparr>ik_angles = a, converged = False, ik_error = ee_dist r target a, iterations = maxIter\<rparr>"
proof (induction j arbitrary: iter as)
  case 0
  then show ?case by (subst ik_loop_unfold) simp
next
  case (Suc j)
  let ?err = "v3Sub target (mat4Pos (fk r as ! nJoints r))"
  obtain a1 where a1: "ik_step r ?err lambda as = Some a1" using ik_step_ok by blast
  have far: "\<not> ee_dist r target as < tol" using Suc(2) by auto
  have lt: "real iter < maxIter" using Suc(3) by simp
  have "\<forall>k < j. \<forall>a. ik_iterate r target lambda k a1 = Some a \<longrightarrow> \<not> ee_dist r target a < tol"
  proof (intro allI impI)
    fix k a assume "k < j" "ik_iterate r target lambda k a1 = Some a"
    then have "Suc k < Suc j" "ik_iterate r target lambda (Suc k) as = Some a"
      using a1 by simp_all
    with Suc(2) show "\<not> ee_dist r target a < tol" by blast
  qed
  from Suc(1)[OF this, of "iter + 1"] Suc(3)
  obtain a where "ik_iterate r target lambda j a1 = Some a"
    "ik_loop r target maxIter tol lambda (iter + 1) a1 =
      Some \<lparr>ik_angles = a, converged = False, ik_error = ee_dist r target a, iterations = maxIter\<rparr>"
    by auto
  with a1 far lt show ?case by (subst ik_loop_unfold) simp
qed

lemma ik_iterate_clamped:
  "ik_iterate r target lambda k as = Some a \<Longrightarrow> 0 < k \<Longrightarrow> clampAngles r a = a \<and> length a = length as"
proof (induction k arbitrary: as)
  case 0
  then show ?case by simp
next
  case (Suc k)
  let ?err = "v3Sub target (mat4Pos (fk r as ! nJoints r))"
  obtain a1 where a1: "ik_step r ?err lambda as = Some a1" "length a1 = length as" "clampAngles r a1 = a1"
    using ik_step_ok by blast
  with Suc(2) have it: "ik_iterate r target lambda k a1 = Some a" by simp
  show ?case
  proof (cases k)
    case 0
    with it a1 show ?thesis by simp
  next
    case (Suc k')
    with Suc.IH[OF it] a1(2) show ?thesis by simp
  qed
qed

lemma ik_loop_converged:
  "clampAngles r as = as \<Longrightarrow> ik_loop r target maxIter tol lambda iter as = Some res \<Longrightarrow>
   converged res \<Longrightarrow>
   ik_error res = ee_dist r target (ik_angles res) \<and> ik_error res < tol"
proof (induction r target maxIter tol lambda iter as rule: ik_loop.induct)
  case (1 r target maxIter tol lambda iter as)
  let ?err = "v3Sub target (mat4Pos (fk r as ! nJoints r))"
  show ?case
  proof (cases "real iter < maxIter")
    case False
    with 1(3,4) show ?thesis by (subst (asm) ik_loop_unfold) auto
  next
    case lt: True
    show ?thesis
    proof (cases "ee_dist r target as < tol")
      case True
      with lt 1(2,3) show ?thesis by (subst (asm) ik_loop_unfold) auto
    next
      case False
      obtain a where a: "ik_step r ?err lambda as = Some a" "clampAngles r a = a"
        using ik_step_ok by blast
      from False have nf: "\<not> v3Len ?err < tol" by (simp add: ee_dist_def)
      have "ik_loop r target maxIter tol lambda (iter + 1) a = Some res"
        using 1(3) lt False a(1) by (subst (asm) ik_loop_unfold) simp
      from 1(1)[OF lt refl refl refl refl nf a(1) a(2) this 1(4)] show ?thesis .
    qed
  qed
qed

lemma ik_loop_iterations:
  "ik_loop r target maxIter tol lambda iter as = Some res \<Longrightarrow>
   (converged res \<and> real iter \<le> iterations res) \<or> (\<not> converged res \<and> iterations res = maxIter)"
proof (induction r target maxIter tol lambda iter as rule: ik_loop.induct)
  case (1 r target maxIter tol lambda iter as)
  let ?err = "v3Sub target (mat4Pos (fk r as ! nJoints r))"
  show ?case
  proof (cases "real iter < maxIter \<and> \<not> ee_dist r target as < tol")
    case False
    with 1(2) show ?thesis by (subst (asm) ik_loop_unfold) (auto split: if_splits)
  next
    case True
    obtain a where a: "ik_step r ?err lambda as = Some a" using ik_step_ok by blast
    from True have nf: "\<not> v3Len ?err < tol" by (simp add: ee_dist_def)
    have "ik_loop r target maxIter tol lambda (iter + 1) a = Some res"
      using 1(2) True a by (subst (asm) ik_loop_unfold) simp
    from 1(1)[OF _ refl refl refl refl nf a this] True show ?thesis by auto
  qed
qed

lemma solveIK_unfold:
  "solveIK r target startAngles opts =
     ik_loop r target (js_or (opts ''maxIter'') 200) (js_or (opts ''tol'') 0.001)
       (js_or (opts ''lambda'') 0.5) 0 (case startAngles of None \<Rightarrow> angles r | Some s \<Rightarrow> s)"
  by (simp add: solveIK_def Let_def)

text \<open>
  Claim C5. Take a call of the IK solver on a model with \<open>n\<close> joints, a target position, \<open>n\<close>
  starting angles (the supplied ones, or the model's own) and an iteration budget that is
  a positive integer \<open>K\<close>. If at none of the iterations \<open>0, \<dots>, K - 1\<close> the end-effector is
  within the tolerance of the target, the solver returns after exactly \<open>K\<close> joint updates:
  the returned angles are the result of the \<open>K\<close>-th update, they are clamped (a fixed point
  of clamping), \<open>converged\<close> is false, \<open>iterations\<close> is \<open>K\<close>, and \<open>error\<close> is the distance
  between the target and the end-effector that FK gives at the returned angles.
\<close>

theorem solveIK_exhausted:
  assumes "wf_robot r" and "length target = 3"
    and "start = (case startAngles of None \<Rightarrow> angles r | Some s \<Rightarrow> s)"
    and "length start = nJoints r"
    and "js_or (opts ''maxIter'') 200 = real K" and "0 < K"
    and "\<forall>k < K. \<forall>a. ik_iterate r target (js_or (opts ''lambda'') 0.5) k start = Some a
            \<longrightarrow> \<not> ee_dist r target a < js_or (opts ''tol'') 0.001"
  shows "\<exists>a. ik_iterate r target (js_or (opts ''lambda'') 0.5) K start = Some a
           \<and> length a = nJoints r \<and> clampAngles r a = a
           \<and> solveIK r target startAngles opts =
                Some \<lparr>ik_angles = a, converged = False,
                      ik_error = ee_dist r target a, iterations = real K\<rparr>"
proof -
  let ?lam = "js_or (opts ''lambda'') 0.5"
  let ?tol = "js_or (opts ''tol'') 0.001"
  from ik_loop_exhaust[OF assms(7), of "real K" 0]
  obtain a where a: "ik_iterate r target ?lam K start = Some a"
    "ik_loop r target (real K) ?tol ?lam 0 start =
       Some \<lparr>ik_angles = a, converged = False, ik_error = ee_dist r target a, iterations = real K\<rparr>"
    by auto
  from ik_iterate_clamped[OF a(1) assms(6)] assms(4)
  have "clampAngles r a = a" "length a = nJoints r" by simp_all
  with a show ?thesis
    by (simp add: solveIK_unfold assms(3,5))
qed

text \<open>
  Claim C6. If the end-effector that FK gives at the starting angles is already within the
  tolerance of the target (and the iteration budget is positive), the IK solver returns
  \<open>converged = true\<close> and \<open>iterations = 0\<close>; the returned angles are the clamped starting
  angles, no joint update having been applied, and \<open>error\<close> is the distance at the start.
\<close>

theorem solveIK_immediate:
  assumes "wf_robot r" and "length target = 3"
    and "start = (case startAngles of None \<Rightarrow> angles r | Some s \<Rightarrow> s)"
    and "length start = nJoints r"
    and "0 < js_or (opts ''maxIter'') 200"
    and "ee_dist r target start < js_or (opts ''tol'') 0.001"
  shows "solveIK r target startAngles opts =
           Some \<lparr>ik_angles = clampAngles r start, converged = True,
                 ik_error = ee_dist r target start, iterations = 0\<rparr>"
  using assms(5,6) unfolding solveIK_unfold assms(3)[symmetric]
  by (subst ik_loop_unfold) simp

text \<open>
  Claim C10. For every call of the IK solver whose starting angles respect the joint limits
  of the model, the solver returns a result, and if that result has \<open>converged = true\<close>
  then its \<open>error\<close> is the distance between the target and the end-effector that FK gives
  at the returned angles, and that distance is strictly below the tolerance.
\<close>

theorem solveIK_converged_error:
  assumes "wf_robot r" and "length target = 3"
    and "start = (case startAngles of None \<Rightarrow> angles r | Some s \<Rightarrow> s)"
    and "length start = nJoints r"
    and "within_limits r start"
  shows "(\<exists>res. solveIK r target startAngles opts = Some res)
       \<and> (\<forall>res. solveIK r target startAngles opts = Some res \<and> converged res \<longrightarrow>
              ik_error res = ee_dist r target (ik_angles res)
            \<and> ee_dist r target (ik_angles res) < js_or (opts ''tol'') 0.001)"
proof -
  have fixed: "clampAngles r start = start"
    using assms(4,5) by (intro clampAngles_fixed) (auto simp: within_limits_def)
  show ?thesis
    unfolding solveIK_unfold assms(3)[symmetric]
    using ik_loop_total ik_loop_converged[OF fixed] by metis
qed

text \<open>
  Claim C8, as amended. The IK solver reads its options under the names \<open>maxIter\<close>, \<open>tol\<close>
  and \<open>lambda\<close>: for every options object whose values under these names are positive, the
  solver runs with the supplied values, and with 200, 0.001 and 0.5 for the ones omitted.
\<close>

theorem solveIK_option_names:
  assumes "\<forall>k \<in> {''maxIter'', ''tol'', ''lambda''}. \<forall>v. opts k = Some v \<longrightarrow> 0 < v"
  shows "solveIK r target startAngles opts =
           ik_loop r target
             (case opts ''maxIter'' of None \<Rightarrow> 200 | Some m \<Rightarrow> m)
             (case opts ''tol'' of None \<Rightarrow> 0.001 | Some t \<Rightarrow> t)
             (case opts ''lambda'' of None \<Rightarrow> 0.5 | Some l \<Rightarrow> l)
             0 (case startAngles of None \<Rightarrow> angles r | Some s \<Rightarrow> s)"
proof -
  have m: "js_or (opts ''maxIter'') 200 = (case opts ''maxIter'' of None \<Rightarrow> 200 | Some m \<Rightarrow> m)"
    using assms by (cases "opts ''maxIter''") (auto simp: js_or_def)
  have t: "js_or (opts ''tol'') 0.001 = (case opts ''tol'' of None \<Rightarrow> 0.001 | Some t \<Rightarrow> t)"
    using assms by (cases "opts ''tol''") (auto simp: js_or_def)
  have l: "js_or (opts ''lambda'') 0.5 = (case opts ''lambda'' of None \<Rightarrow> 0.5 | Some l \<Rightarrow> l)"
    using assms by (cases "opts ''lambda''") (auto simp: js_or_def)
  show ?thesis unfolding solveIK_unfold m t l ..
qed

lemma planar3_nJoints: "nJoints planar3 = 3"
  by (simp add: planar3_eq)

lemma ee_dist_planar3_zero:
  "ee_dist planar3 [x, y, z] [0, 0, 0] = sqrt ((x - 1.8) * (x - 1.8) + y * y + z * z)"
  by (simp add: ee_dist_def planar3_nJoints fk_planar3_zero mat4Pos_def v3Sub_def v3Len_def)

lemma within_limits_planar3_zero: "within_limits planar3 [0, 0, 0]"
  unfolding within_limits_def planar3_nJoints
proof (intro allI impI)
  fix i :: nat
  assume "i < 3"
  then consider "i = 0" | "i = 1" | "i = 2" by linarith
  then show "fst (limits planar3 ! i) \<le> [0, 0, 0] ! i \<and> [0, 0, 0] ! i \<le> snd (limits planar3 ! i)"
    by cases (simp_all add: planar3_eq RAD_def)
qed

theorem solveIK_immediate_witness:
  "wf_robot planar3 \<and> length [1.8, 0, 0 :: real] = 3 \<and> length [0, 0, 0 :: real] = nJoints planar3
   \<and> 0 < js_or (Map.empty ''maxIter'') 200
   \<and> ee_dist planar3 [1.8, 0, 0] [0, 0, 0] < js_or (Map.empty ''tol'') 0.001
   \<and> solveIK planar3 [1.8, 0, 0] (Some [0, 0, 0]) Map.empty =
        Some \<lparr>ik_angles = clampAngles planar3 [0, 0, 0], converged = True,
              ik_error = ee_dist planar3 [1.8, 0, 0] [0, 0, 0], iterations = 0\<rparr>"
proof -
  have l3: "length [1.8, 0, 0 :: real] = 3" by simp
  have len: "length [0, 0, 0 :: real] = nJoints planar3" by (simp add: planar3_nJoints)
  have st: "[0, 0, 0] = (case Some [0, 0, 0 :: real] of None \<Rightarrow> angles planar3 | Some s \<Rightarrow> s)" by simp
  have mi: "0 < js_or (Map.empty ''maxIter'') 200" by (simp add: js_or_def)
  have near: "ee_dist planar3 [1.8, 0, 0] [0, 0, 0] < js_or (Map.empty ''tol'') 0.001"
    by (simp add: ee_dist_planar3_zero js_or_def)
  from solveIK_immediate[OF planar3_wf l3 st len mi near] planar3_wf l3 len mi near
  show ?thesis by blast
qed

theorem solveIK_exhausted_witness:
  "wf_robot planar3 \<and> length [2.8, 0, 0 :: real] = 3 \<and> length [0, 0, 0 :: real] = nJoints planar3
   \<and> js_or ([''maxIter'' \<mapsto> 1] ''maxIter'') 200 = real 1
   \<and> \<not> ee_dist planar3 [2.8, 0, 0] [0, 0, 0] < js_or ([''maxIter'' \<mapsto> 1] ''tol'') 0.001
   \<and> (\<exists>a. ik_iterate planar3 [2.8, 0, 0] (js_or ([''maxIter'' \<mapsto> 1] ''lambda'') 0.5) 1 [0, 0, 0] = Some a
          \<and> length a = nJoints planar3 \<and> clampAngles planar3 a = a
          \<and> solveIK planar3 [2.8, 0, 0] (Some [0, 0, 0]) [''maxIter'' \<mapsto> 1] =
               Some \<lparr>ik_angles = a, converged = False,
                     ik_error = ee_dist planar3 [2.8, 0, 0] a, iterations = real 1\<rparr>)"
proof -
  let ?opts = "[''maxIter'' \<mapsto> 1 :: real]"
  have l3: "length [2.8, 0, 0 :: real] = 3" by simp
  have len: "length [0, 0, 0 :: real] = nJoints planar3" by (simp add: planar3_nJoints)
  have st: "[0, 0, 0] = (case Some [0, 0, 0 :: real] of None \<Rightarrow> angles planar3 | Some s \<Rightarrow> s)" by simp
  have mi: "js_or (?opts ''maxIter'') 200 = real 1" by (simp add: js_or_def)
  have far: "\<not> ee_dist planar3 [2.8, 0, 0] [0, 0, 0] < js_or (?opts ''tol'') 0.001"
    by (simp add: ee_dist_planar3_zero js_or_def)
  have hyp: "\<forall>k < 1. \<forall>a. ik_iterate planar3 [2.8, 0, 0] (js_or (?opts ''lambda'') 0.5) k [0, 0, 0] = Some a
            \<longrightarrow> \<not> ee_dist planar3 [2.8, 0, 0] a < js_or (?opts ''tol'') 0.001"
    using far by simp
  have pos: "0 < (1 :: nat)" by simp
  from solveIK_exhausted[OF planar3_wf l3 st len mi pos hyp] planar3_wf l3 len mi far
  show ?thesis by blast
qed

theorem solveIK_converged_error_witness:
  "wf_robot planar3 \<and> length [1.8, 0, 0 :: real] = 3 \<and> length [0, 0, 0 :: real] = nJoints planar3
   \<and> within_limits planar3 [0, 0, 0]
   \<and> (\<exists>res. solveIK planar3 [1.8, 0, 0] (Some [0, 0, 0]) Map.empty = Some res \<and> converged res
          \<and> ik_error res = ee_dist planar3 [1.8, 0, 0] (ik_angles res)
          \<and> ee_dist planar3 [1.8, 0, 0] (ik_angles res) < js_or (Map.empty ''tol'') 0.001)"
proof -
  have l3: "length [1.8, 0, 0 :: real] = 3" by simp
  have len: "length [0, 0, 0 :: real] = nJoints planar3" by (simp add: planar3_nJoints)
  have st: "[0, 0, 0] = (case Some [0, 0, 0 :: real] of None \<Rightarrow> angles planar3 | Some s \<Rightarrow> s)" by simp
  have near: "ee_dist planar3 [1.8, 0, 0] [0, 0, 0] < js_or (Map.empty ''tol'') 0.001"
    by (simp add: ee_dist_planar3_zero js_or_def)
  have mi: "real 0 < js_or (Map.empty ''maxIter'') 200" by (simp add: js_or_def)
  have "solveIK planar3 [1.8, 0, 0] (Some [0, 0, 0]) Map.empty =
        Some \<lparr>ik_angles = clampAngles planar3 [0, 0, 0], converged = True,
              ik_error = ee_dist planar3 [1.8, 0, 0] [0, 0, 0], iterations = real 0\<rparr>"
    unfolding solveIK_unfold option.case
    by (subst ik_loop_unfold) (simp only: mi near if_True)
  then obtain res where res: "solveIK planar3 [1.8, 0, 0] (Some [0, 0, 0]) Map.empty = Some res"
    "converged res" by simp
  from solveIK_converged_error[OF planar3_wf l3 st len within_limits_planar3_zero, of Map.empty] res
  have "ik_error res = ee_dist planar3 [1.8, 0, 0] (ik_angles res)
      \<and> ee_dist planar3 [1.8, 0, 0] (ik_angles res) < js_or (Map.empty ''tol'') 0.001"
    by blast
  with planar3_wf l3 len within_limits_planar3_zero res show ?thesis by blast
qed

theorem solveIK_option_names_witness:
  "solveIK planar3 [1.8, 1, 0] (Some [0, 0, 0]) [''tol'' \<mapsto> 100] =
     ik_loop planar3 [1.8, 1, 0] 200 100 0.5 0 [0, 0, 0]"
proof -
  let ?opts = "[''tol'' \<mapsto> 100 :: real]"
  have pos: "\<forall>k \<in> {''maxIter'', ''tol'', ''lambda''}. \<forall>v. ?opts k = Some v \<longrightarrow> 0 < v"
    by simp
  have c: "(case ?opts ''maxIter'' of None \<Rightarrow> 200 | Some m \<Rightarrow> m) = 200"
    "(case ?opts ''tol'' of None \<Rightarrow> 0.001 | Some t \<Rightarrow> t) = 100"
    "(case ?opts ''lambda'' of None \<Rightarrow> 0.5 | Some l \<Rightarrow> l) = 0.5"
    "(case Some [0, 0, 0 :: real] of None \<Rightarrow> angles planar3 | Some s \<Rightarrow> s) = [0, 0, 0]"
    by simp_all
  from solveIK_option_names[OF pos, of planar3 "[1.8, 1, 0]" "Some [0, 0, 0]"]
  show ?thesis unfolding c .
qed

text \<open>
  Claim C8 as stated names the options \<open>maxIterations\<close>, \<open>positionTolerance\<close> and
  \<open>dampingFactor\<close>. A tolerance supplied as \<open>positionTolerance\<close> is not used: with the target
  at distance 1 from the end-effector and \<open>positionTolerance = 100\<close>, the solver does not behave
  as the solver with tolerance 100 (which converges at once); it runs with tolerance 0.001.
\<close>

theorem option_names_counterexample:
  "js_or ([''positionTolerance'' \<mapsto> 100] ''tol'') 0.001 = 0.001
   \<and> solveIK planar3 [1.8, 1, 0] (Some [0, 0, 0]) [''positionTolerance'' \<mapsto> 100]
       \<noteq> ik_loop planar3 [1.8, 1, 0] 200 100 0.5 0 [0, 0, 0]"
proof -
  let ?t = "[1.8, 1, 0 :: real]"
  let ?opts = "[''positionTolerance'' \<mapsto> 100 :: real]"
  let ?err = "v3Sub ?t (mat4Pos (fk planar3 [0, 0, 0] ! nJoints planar3))"
  have o: "js_or (?opts ''maxIter'') 200 = 200" "js_or (?opts ''tol'') 0.001 = 0.001"
    "js_or (?opts ''lambda'') 0.5 = 0.5"
    by (simp_all add: js_or_def)
  have d: "ee_dist planar3 ?t [0, 0, 0] = 1" by (simp add: ee_dist_planar3_zero)
  have c1: "real 0 < 200" "ee_dist planar3 ?t [0, 0, 0] < 100" "\<not> ee_dist planar3 ?t [0, 0, 0] < 0.001"
    unfolding d by simp_all
  have rhs: "ik_loop planar3 ?t 200 100 0.5 0 [0, 0, 0] =
      Some \<lparr>ik_angles = clampAngles planar3 [0, 0, 0], converged = True,
            ik_error = ee_dist planar3 ?t [0, 0, 0], iterations = real 0\<rparr>"
    by (subst ik_loop_unfold) (simp only: c1 if_True)
  obtain a where a: "ik_step planar3 ?err 0.5 [0, 0, 0] = Some a"
    using ik_step_ok by blast
  obtain res where res: "ik_loop planar3 ?t 200 0.001 0.5 (0 + 1) a = Some res"
    using ik_loop_total by blast
  have lhs: "solveIK planar3 ?t (Some [0, 0, 0]) ?opts = Some res"
    unfolding solveIK_unfold o option.case
    by (subst ik_loop_unfold) (simp only: c1 if_True if_False a option.case res)
  from ik_loop_iterations[OF res] have "\<not> (converged res \<and> iterations res = real 0)" by auto
  then have "Some res \<noteq>
      Some \<lparr>ik_angles = clampAngles planar3 [0, 0, 0], converged = True,
            ik_error = ee_dist planar3 ?t [0, 0, 0], iterations = real 0\<rparr>"
    by auto
  then show ?thesis unfolding lhs rhs using o(2) by blast
qed

end
